theory Spec2Isabelle
  imports Main "HOL-Library.Char_ord" "HOL-Library.List_Lexorder"
begin

section \<open>Strings and JSON values\<close>

text \<open>
  The script \<^verbatim>\<open>.github/workflows/pr-digest.js\<close> is one asynchronous function. It reads a
  JSON configuration, fetches pull requests through the \<^verbatim>\<open>github\<close> client, merges them in
  a \<^verbatim>\<open>Map\<close> keyed by \<^verbatim>\<open>html_url\<close>, classifies and renders them.

  JavaScript strings are modelled as \<^typ>\<open>string\<close>. The model is exact for ASCII text,
  which is what repository identifiers, handles and locators are; the decorative glyphs of
  the digest are written as their UTF-8 bytes.
\<close>

datatype json =
    JNull
  | JBool bool
  | JNum int
  | JStr string
  | JArr "json list"
  | JObj "(string \<times> json) list"

text \<open>\<^verbatim>\<open>!!v\<close>: the falsy JSON values are \<^verbatim>\<open>null\<close>, \<^verbatim>\<open>false\<close>, \<^verbatim>\<open>0\<close> and \<^verbatim>\<open>""\<close>.\<close>

fun truthy :: "json \<Rightarrow> bool" where
  "truthy JNull = False"
| "truthy (JBool b) = b"
| "truthy (JNum n) = (n \<noteq> 0)"
| "truthy (JStr s) = (s \<noteq> [])"
| "truthy (JArr xs) = True"
| "truthy (JObj kvs) = True"

definition digit_char :: "nat \<Rightarrow> char" where
  "digit_char d = ''0123456789'' ! d"

fun show_nat :: "nat \<Rightarrow> string" where
  "show_nat n = (if n < 10 then [digit_char n] else show_nat (n div 10) @ [digit_char (n mod 10)])"

declare show_nat.simps [simp del]

definition show_int :: "int \<Rightarrow> string" where
  "show_int i = (if i < 0 then CHR ''-'' # show_nat (nat (- i)) else show_nat (nat i))"

text \<open>
  \<^verbatim>\<open>String(v)\<close> on a JSON value. An array is joined with commas, \<^verbatim>\<open>null\<close> elements
  giving the empty string; an object gives \<^verbatim>\<open>[object Object]\<close>.
\<close>

fun js_String :: "json \<Rightarrow> string" and js_join :: "json list \<Rightarrow> string" where
  "js_String JNull = ''null''"
| "js_String (JBool b) = (if b then ''true'' else ''false'')"
| "js_String (JNum n) = show_int n"
| "js_String (JStr s) = s"
| "js_String (JArr xs) = js_join xs"
| "js_String (JObj kvs) = ''[object Object]''"
| "js_join [] = []"
| "js_join [x] = (if x = JNull then [] else js_String x)"
| "js_join (x # y # ys) = (if x = JNull then [] else js_String x) @ '','' @ js_join (y # ys)"

text \<open>\<^verbatim>\<open>String(v || "")\<close>, as applied to the entries of \<^verbatim>\<open>repos\<close> and \<^verbatim>\<open>users\<close>.\<close>

definition String_or_empty :: "json \<Rightarrow> string" where
  "String_or_empty v = (if truthy v then js_String v else [])"

definition is_space :: "char \<Rightarrow> bool" where
  "is_space c = (c \<in> set [CHR 0x20, CHR 0x09, CHR 0x0A, CHR 0x0B, CHR 0x0C, CHR 0x0D])"

definition trim :: "string \<Rightarrow> string" where
  "trim s = rev (dropWhile is_space (rev (dropWhile is_space s)))"

text \<open>\<^verbatim>\<open>s.split(c)\<close>: the segments between the separators, at least one.\<close>

fun split_on :: "char \<Rightarrow> string \<Rightarrow> string list" where
  "split_on c [] = [[]]"
| "split_on c (x # xs) =
     (if x = c then [] # split_on c xs
      else (case split_on c xs of [] \<Rightarrow> [[x]] | y # ys \<Rightarrow> (x # y) # ys))"

text \<open>\<^verbatim>\<open>parts[i]\<close>: \<^verbatim>\<open>undefined\<close> (here \<open>None\<close>) out of range.\<close>

definition at_index :: "'a list \<Rightarrow> nat \<Rightarrow> 'a option" where
  "at_index xs i = (if i < length xs then Some (xs ! i) else None)"

text \<open>\<^verbatim>\<open>!s\<close> for a string that may be \<^verbatim>\<open>undefined\<close>.\<close>

definition falsy_str :: "string option \<Rightarrow> bool" where
  "falsy_str s = (case s of None \<Rightarrow> True | Some t \<Rightarrow> t = [])"

text \<open>
  \<^verbatim>\<open>xs.slice(0, n)\<close> for an integer \<open>n\<close>: a negative end counts from the end of the
  array.
\<close>

definition slice0 :: "'a list \<Rightarrow> int \<Rightarrow> 'a list" where
  "slice0 xs n = (if n < 0 then take (length xs - nat (- n)) xs else take (nat n) xs)"

section \<open>Configuration\<close>

text \<open>
  The configuration document as the script reads it: the six properties it looks up.
  \<open>None\<close> is \<^verbatim>\<open>undefined\<close> (the property is absent). The three caps are typed as
  the integers the configuration contract gives them; for a cap, \<open>None\<close> stands for
  absent or \<^verbatim>\<open>null\<close>, the two cases in which \<^verbatim>\<open>??\<close> takes the default.
\<close>

record config =
  cfg_org :: "json option"
  cfg_repos :: "json option"
  cfg_users :: "json option"
  cfg_max_prs_per_repo :: "int option"
  cfg_max_total_prs :: "int option"
  cfg_max_search_results_per_user :: "int option"

text \<open>
  The result of \<^verbatim>\<open>JSON.parse(fs.readFileSync(cfgPath, "utf8"))\<close>: either call throws
  (with a message), or the document is \<^verbatim>\<open>null\<close>, or it is a value whose properties can
  be read.
\<close>

datatype parsed = ParseError string | ParsedNull | ParsedDoc config

record env =
  PR_DIGEST_CONFIG :: "string option"
  existsSync :: "string \<Rightarrow> bool"
  read_json :: "string \<Rightarrow> parsed"
  clock :: "nat \<Rightarrow> int"
  today :: "nat \<times> nat \<times> nat"

text \<open>
  \<open>clock env k\<close> is the value of \<^verbatim>\<open>Date.now()\<close> when it is read after \<open>k\<close> remote
  calls; \<open>today env\<close> is the year, month and day of \<^verbatim>\<open>new Date().toISOString()\<close> at the
  end of the run.
\<close>

definition isArray :: "json option \<Rightarrow> bool" where
  "isArray v = (case v of Some (JArr xs) \<Rightarrow> True | _ \<Rightarrow> False)"

text \<open>\<^verbatim>\<open>Array.isArray(v) ? v : []\<close>\<close>

definition array_or_empty :: "json option \<Rightarrow> json list" where
  "array_or_empty v = (case v of Some (JArr xs) \<Rightarrow> xs | _ \<Rightarrow> [])"

definition falsy_opt :: "json option \<Rightarrow> bool" where
  "falsy_opt v = (case v of None \<Rightarrow> True | Some j \<Rightarrow> \<not> truthy j)"

definition cap_or :: "int option \<Rightarrow> int \<Rightarrow> int" where
  "cap_or v d = (case v of None \<Rightarrow> d | Some n \<Rightarrow> n)"

definition MAX_PRS_PER_REPO :: "config \<Rightarrow> int" where
  "MAX_PRS_PER_REPO cfg = cap_or (cfg_max_prs_per_repo cfg) 25"

definition MAX_TOTAL_PRS :: "config \<Rightarrow> int" where
  "MAX_TOTAL_PRS cfg = cap_or (cfg_max_total_prs cfg) 200"

definition MAX_SEARCH_RESULTS_PER_USER :: "config \<Rightarrow> int" where
  "MAX_SEARCH_RESULTS_PER_USER cfg = cap_or (cfg_max_search_results_per_user cfg) 500"

section \<open>The remote client and the merge map\<close>

text \<open>An error thrown by a remote call; \<open>status\<close> is what \<^verbatim>\<open>e?.status\<close> reads.\<close>

datatype js_error = JsError (status: "int option") (message: string)

text \<open>
  The fields of a detail response that \<^verbatim>\<open>addPR\<close> consumes. \<open>d_login\<close> is
  \<^verbatim>\<open>data.user?.login\<close>, \<open>d_created_at\<close> the creation time in milliseconds,
  \<open>d_draft\<close> the truth value of \<^verbatim>\<open>data.draft\<close>.
\<close>

record pr_data =
  d_html_url :: string
  d_number :: int
  d_title :: string
  d_login :: "string option"
  d_created_at :: int
  d_additions :: "int option"
  d_deletions :: "int option"
  d_draft :: bool

record pr =
  repo :: string
  number :: int
  title :: string
  url :: string
  author :: string
  days :: int
  additions :: int
  deletions :: int
  draft :: bool

text \<open>An item of a listing page: \<^verbatim>\<open>null\<close>, or an object whose \<^verbatim>\<open>number\<close> may be missing.\<close>

datatype summary = SummaryNull | Summary "int option"

text \<open>
  An item of a search result: not an object, or an object whose \<^verbatim>\<open>url\<close> may be missing.
\<close>

datatype search_item = NotObject | SearchItem "string option"

text \<open>
  The client. \<open>pulls_list\<close> gives the pages the iterator yields, in order, a failing
  request as \<open>Inl\<close>; the data of a page may be missing. \<open>search\<close> is the whole
  pagination of one query: for each response that the mapping function of line 113 is
  applied to, what \<^verbatim>\<open>r?.data?.items\<close> reads when that is an array, and \<open>None\<close> when it is
  not.
\<close>

record github =
  pulls_get :: "string \<Rightarrow> string \<Rightarrow> int \<Rightarrow> js_error + pr_data"
  pulls_list :: "string \<Rightarrow> string \<Rightarrow> (js_error + summary list option) list"
  search :: "string \<Rightarrow> js_error + search_item list option list"

text \<open>The remote calls of a run, in the order they are made.\<close>

datatype api_call =
    PullsGet string string int
  | PullsListPage string string nat
  | Search string

record state =
  prMap :: "(string \<times> pr) list"
  calls :: "api_call list"

definition initial :: state where
  "initial = \<lparr>prMap = [], calls = []\<rparr>"

text \<open>
  \<^verbatim>\<open>Map.prototype.set\<close>: the value of an existing key is replaced where it stands, a new
  key is appended.
\<close>

fun Map_set :: "'k \<Rightarrow> 'v \<Rightarrow> ('k \<times> 'v) list \<Rightarrow> ('k \<times> 'v) list" where
  "Map_set k v [] = [(k, v)]"
| "Map_set k v (p # ps) = (if fst p = k then (k, v) # ps else p # Map_set k v ps)"

definition daysOpen :: "int \<Rightarrow> int \<Rightarrow> int" where
  "daysOpen now created = (now - created) div 86400000"

definition record_of :: "string \<Rightarrow> string \<Rightarrow> int \<Rightarrow> pr_data \<Rightarrow> pr" where
  "record_of owner rname now d =
     \<lparr>repo = owner @ ''/'' @ rname,
      number = d_number d,
      title = d_title d,
      url = d_html_url d,
      author = (case d_login d of None \<Rightarrow> ''unknown'' | Some l \<Rightarrow> if l = [] then ''unknown'' else l),
      days = daysOpen now (d_created_at d),
      additions = (case d_additions d of None \<Rightarrow> 0 | Some n \<Rightarrow> n),
      deletions = (case d_deletions d of None \<Rightarrow> 0 | Some n \<Rightarrow> n),
      draft = d_draft d\<rparr>"

text \<open>
  A step either completes with the new state or throws, \<open>Inl\<close> carrying the error and the
  state at the throw.
\<close>

type_synonym step = "js_error \<times> state + state"

definition addPR :: "github \<Rightarrow> (nat \<Rightarrow> int) \<Rightarrow> string \<Rightarrow> string \<Rightarrow> int \<Rightarrow> state \<Rightarrow> step" where
  "addPR gh clk owner rname num s =
     (let s1 = s\<lparr>calls := calls s @ [PullsGet owner rname num]\<rparr> in
      case pulls_get gh owner rname num of
        Inl e \<Rightarrow> if status e = Some 404 then Inr s1 else Inl (e, s1)
      | Inr d \<Rightarrow>
          Inr (s1\<lparr>prMap :=
                 Map_set (d_html_url d) (record_of owner rname (clk (length (calls s1))) d) (prMap s1)\<rparr>))"

text \<open>\<^verbatim>\<open>prMap.size >= MAX_TOTAL_PRS\<close>\<close>

definition at_cap :: "int \<Rightarrow> state \<Rightarrow> bool" where
  "at_cap cap s = (cap \<le> int (length (prMap s)))"

section \<open>Fetching by repository listing\<close>

text \<open>\<^verbatim>\<open>!pr || !pr.number\<close>\<close>

fun summary_number :: "summary \<Rightarrow> int option" where
  "summary_number SummaryNull = None"
| "summary_number (Summary None) = None"
| "summary_number (Summary (Some n)) = (if n = 0 then None else Some n)"

text \<open>The loop over the items of one page (lines 93 to 98).\<close>

fun records_loop ::
  "int \<Rightarrow> github \<Rightarrow> (nat \<Rightarrow> int) \<Rightarrow> string \<Rightarrow> string \<Rightarrow> summary list \<Rightarrow> state \<Rightarrow> step" where
  "records_loop cap gh clk owner rname [] s = Inr s"
| "records_loop cap gh clk owner rname (p # ps) s =
     (if at_cap cap s then Inr s
      else case summary_number p of
        None \<Rightarrow> records_loop cap gh clk owner rname ps s
      | Some n \<Rightarrow>
          (case addPR gh clk owner rname n s of
             Inl es \<Rightarrow> Inl es
           | Inr s' \<Rightarrow> records_loop cap gh clk owner rname ps s'))"

text \<open>
  The loop over the pages of one repository (lines 87 to 99). Each turn of the iterator is
  one listing request; \<^verbatim>\<open>page?.data ?? []\<close> reads the items. The cap is not tested here.
\<close>

fun pages_loop ::
  "int \<Rightarrow> github \<Rightarrow> (nat \<Rightarrow> int) \<Rightarrow> string \<Rightarrow> string \<Rightarrow> nat \<Rightarrow>
   (js_error + summary list option) list \<Rightarrow> state \<Rightarrow> step" where
  "pages_loop cap gh clk owner rname k [] s = Inr s"
| "pages_loop cap gh clk owner rname k (pg # pgs) s =
     (let s1 = s\<lparr>calls := calls s @ [PullsListPage owner rname k]\<rparr> in
      case pg of
        Inl e \<Rightarrow> Inl (e, s1)
      | Inr page \<Rightarrow>
          (case records_loop cap gh clk owner rname (case page of None \<Rightarrow> [] | Some prs \<Rightarrow> prs) s1 of
             Inl es \<Rightarrow> Inl es
           | Inr s2 \<Rightarrow> pages_loop cap gh clk owner rname (Suc k) pgs s2))"

text \<open>The loop over the configured repositories (lines 79 to 100).\<close>

fun repos_loop :: "int \<Rightarrow> github \<Rightarrow> (nat \<Rightarrow> int) \<Rightarrow> json list \<Rightarrow> state \<Rightarrow> step" where
  "repos_loop cap gh clk [] s = Inr s"
| "repos_loop cap gh clk (repoFull # rest) s =
     (if at_cap cap s then Inr s
      else
        let parts = split_on CHR ''/'' (trim (String_or_empty repoFull));
            owner = at_index parts 0;
            rname = at_index parts 1
        in if falsy_str owner \<or> falsy_str rname then repos_loop cap gh clk rest s
           else (case pages_loop cap gh clk (the owner) (the rname) 0
                        (pulls_list gh (the owner) (the rname)) s of
                   Inl es \<Rightarrow> Inl es
                 | Inr s' \<Rightarrow> repos_loop cap gh clk rest s'))"

section \<open>Fetching by author search\<close>

definition is_digit :: "char \<Rightarrow> bool" where
  "is_digit c = (c \<in> set ''0123456789'')"

definition not_slash :: "char \<Rightarrow> bool" where
  "not_slash c = (c \<noteq> CHR ''/'')"

text \<open>Consuming a literal at the front of the input.\<close>

fun literal :: "string \<Rightarrow> string \<Rightarrow> string option" where
  "literal [] s = Some s"
| "literal (c # cs) [] = None"
| "literal (c # cs) (x # xs) = (if c = x then literal cs xs else None)"

text \<open>
  The regular expression of line 121,
  \<^verbatim>\<open>/\/repos\/([^/]+)\/([^/]+)\/issues\/(\d+)$/\<close>, tried at the front of the input. Each
  class is followed by a character outside the class (a slash, or the end of the input), so
  only its longest run can lead to a match and the greedy choice needs no backtracking.
\<close>

definition match_here :: "string \<Rightarrow> (string \<times> string \<times> string) option" where
  "match_here s =
     (case literal ''/repos/'' s of
        None \<Rightarrow> None
      | Some s1 \<Rightarrow>
          if takeWhile not_slash s1 = [] then None
          else (case literal ''/'' (dropWhile not_slash s1) of
            None \<Rightarrow> None
          | Some s2 \<Rightarrow>
              if takeWhile not_slash s2 = [] then None
              else (case literal ''/issues/'' (dropWhile not_slash s2) of
                None \<Rightarrow> None
              | Some s3 \<Rightarrow>
                  if takeWhile is_digit s3 = [] \<or> dropWhile is_digit s3 \<noteq> [] then None
                  else Some (takeWhile not_slash s1, takeWhile not_slash s2, s3))))"

text \<open>\<^verbatim>\<open>url.match(...)\<close>: the match at the leftmost position that has one.\<close>

fun url_match :: "string \<Rightarrow> (string \<times> string \<times> string) option" where
  "url_match [] = None"
| "url_match (c # cs) =
     (case match_here (c # cs) of Some m \<Rightarrow> Some m | None \<Rightarrow> url_match cs)"

text \<open>
  \<^verbatim>\<open>Number(match[3])\<close> on a string of decimal digits. The value is exact up to \<open>2 ^ 53\<close>;
  the rounding of larger values to a double is not modelled. \<^verbatim>\<open>Number.isFinite\<close> holds of
  the values that do not round to infinity, those below the midpoint between the largest
  double and \<open>2 ^ 1024\<close>.
\<close>

definition digit_value :: "char \<Rightarrow> int" where
  "digit_value c = int (of_char c) - 48"

definition Number_digits :: "string \<Rightarrow> int" where
  "Number_digits ds = foldl (\<lambda>a c. 10 * a + digit_value c) 0 ds"

definition Number_isFinite :: "int \<Rightarrow> bool" where
  "Number_isFinite n = (n < 2 ^ 1024 - 2 ^ 970)"

text \<open>The loop over the search results of one author (lines 116 to 130). No cap test.\<close>

fun items_loop :: "github \<Rightarrow> (nat \<Rightarrow> int) \<Rightarrow> search_item list \<Rightarrow> state \<Rightarrow> step" where
  "items_loop gh clk [] s = Inr s"
| "items_loop gh clk (NotObject # its) s = items_loop gh clk its s"
| "items_loop gh clk (SearchItem None # its) s = items_loop gh clk its s"
| "items_loop gh clk (SearchItem (Some u) # its) s =
     (if u = [] then items_loop gh clk its s
      else case url_match u of
        None \<Rightarrow> items_loop gh clk its s
      | Some (owner, rname, ds) \<Rightarrow>
          if \<not> Number_isFinite (Number_digits ds) then items_loop gh clk its s
          else (case addPR gh clk owner rname (Number_digits ds) s of
             Inl es \<Rightarrow> Inl es
           | Inr s' \<Rightarrow> items_loop gh clk its s'))"

text \<open>\<^verbatim>\<open>String(userRaw || "").trim().replace(/^@/, "")\<close>\<close>

definition strip_at :: "string \<Rightarrow> string" where
  "strip_at s = (case s of [] \<Rightarrow> [] | c # cs \<Rightarrow> if c = CHR ''@'' then cs else s)"

definition user_handle :: "json \<Rightarrow> string" where
  "user_handle userRaw = strip_at (trim (String_or_empty userRaw))"

definition search_query :: "json \<Rightarrow> string \<Rightarrow> string" where
  "search_query org user = ''is:pr is:open org:'' @ js_String org @ '' author:'' @ user"

text \<open>The mapping function of \<^verbatim>\<open>github.paginate\<close>, and the concatenation of its results.\<close>

definition search_results :: "search_item list option list \<Rightarrow> search_item list" where
  "search_results rs = concat (map (\<lambda>r. case r of None \<Rightarrow> [] | Some items \<Rightarrow> items) rs)"

text \<open>The loop over the configured authors (lines 102 to 131).\<close>

fun users_loop ::
  "int \<Rightarrow> int \<Rightarrow> json \<Rightarrow> github \<Rightarrow> (nat \<Rightarrow> int) \<Rightarrow> json list \<Rightarrow> state \<Rightarrow> step" where
  "users_loop cap scap org gh clk [] s = Inr s"
| "users_loop cap scap org gh clk (userRaw # rest) s =
     (if at_cap cap s then Inr s
      else if user_handle userRaw = [] then users_loop cap scap org gh clk rest s
      else
        let q = search_query org (user_handle userRaw);
            s1 = s\<lparr>calls := calls s @ [Search q]\<rparr>
        in case search gh q of
             Inl e \<Rightarrow> Inl (e, s1)
           | Inr rs \<Rightarrow>
               (case items_loop gh clk (slice0 (search_results rs) scap) s1 of
                  Inl es \<Rightarrow> Inl es
                | Inr s' \<Rightarrow> users_loop cap scap org gh clk rest s'))"

definition fetch :: "config \<Rightarrow> json \<Rightarrow> github \<Rightarrow> (nat \<Rightarrow> int) \<Rightarrow> step" where
  "fetch cfg org gh clk =
     (case repos_loop (MAX_TOTAL_PRS cfg) gh clk (array_or_empty (cfg_repos cfg)) initial of
        Inl es \<Rightarrow> Inl es
      | Inr s \<Rightarrow>
          users_loop (MAX_TOTAL_PRS cfg) (MAX_SEARCH_RESULTS_PER_USER cfg) org gh clk
            (array_or_empty (cfg_users cfg)) s)"

section \<open>Classification\<close>

definition teamRepoSet :: "json list \<Rightarrow> string set" where
  "teamRepoSet repos = set (map (\<lambda>r. trim (String_or_empty r)) repos)"

text \<open>
  The loop of lines 137 to 143 over \<^verbatim>\<open>prMap.values()\<close>, with the two arrays it pushes
  to.
\<close>

fun classify_loop :: "string set \<Rightarrow> pr list \<Rightarrow> pr list \<times> pr list \<Rightarrow> pr list \<times> pr list" where
  "classify_loop S [] acc = acc"
| "classify_loop S (p # ps) (teamOwned, teamNonOwned) =
     (if repo p \<in> S then classify_loop S ps (teamOwned @ [p], teamNonOwned)
      else classify_loop S ps (teamOwned, teamNonOwned @ [p]))"

definition classify :: "json list \<Rightarrow> (string \<times> pr) list \<Rightarrow> pr list \<times> pr list" where
  "classify repos m = classify_loop (teamRepoSet repos) (map snd m) ([], [])"

section \<open>Rendering\<close>

text \<open>
  A line of the digest. The sub-header of a repository group and the two lines of a record
  keep what they were rendered from; \<open>line_text\<close> below gives the text of each.
\<close>

datatype line = Text string | RepoHeader string nat | PrTitle pr | PrMeta pr

definition rule :: string where
  "rule = concat (replicate 20 [CHR 0xE2, CHR 0x94, CHR 0x81])"

definition none_today :: string where
  "none_today = ''_None today '' @ [CHR 0xF0, CHR 0x9F, CHR 0x8E, CHR 0x89] @ ''_''"

definition table_header :: string where
  "table_header = ''*PR* | *Age* | *Author* | *'' @ [CHR 0xCE, CHR 0x94] @ ''*''"

definition em_dash :: string where
  "em_dash = [CHR 0xE2, CHR 0x80, CHR 0x94]"

fun line_text :: "line \<Rightarrow> string" where
  "line_text (Text t) = t"
| "line_text (RepoHeader r n) = ''*'' @ r @ ''* '' @ em_dash @ '' '' @ show_nat n @ '' open''"
| "line_text (PrTitle p) =
     [CHR 0xE2, CHR 0x80, CHR 0xA2] @ '' <'' @ url p @ ''|#'' @ show_int (number p) @ '' '' @ title p @ ''>''
     @ (if draft p then '' '' @ [CHR 0xF0, CHR 0x9F, CHR 0x93, CHR 0x9D] @ ''(draft)'' else [])"
| "line_text (PrMeta p) =
     ''  '' @ [CHR 0xF0, CHR 0x9F, CHR 0x95, CHR 0x92] @ '' '' @ show_int (days p) @ ''d   |   ''
     @ [CHR 0xF0, CHR 0x9F, CHR 0x91, CHR 0xA4] @ '' @'' @ author p @ ''   |   ''
     @ [CHR 0xF0, CHR 0x9F, CHR 0xA7, CHR 0xAE] @ '' +'' @ show_int (additions p)
     @ '' / -'' @ show_int (deletions p)"

text \<open>
  \<^verbatim>\<open>if (!byRepo[pr.repo]) byRepo[pr.repo] = []; byRepo[pr.repo].push(pr)\<close>. The object
  \<^verbatim>\<open>byRepo\<close> is an association list in insertion order. A repository identifier built by
  \<open>record_of\<close> has a slash, so it is never a property the empty object inherits.
\<close>

definition byRepo_push :: "(string \<times> pr list) list \<Rightarrow> pr \<Rightarrow> (string \<times> pr list) list" where
  "byRepo_push byRepo p =
     Map_set (repo p) ((case map_of byRepo (repo p) of None \<Rightarrow> [] | Some g \<Rightarrow> g) @ [p]) byRepo"

text \<open>
  The body of the loop of line 171 for one repository: the sub-header with the length of
  the whole group, then the records of \<^verbatim>\<open>repoPRs.slice(0, MAX_PRS_PER_REPO)\<close>. The key
  comes from \<^verbatim>\<open>Object.keys(byRepo)\<close>, so the lookup finds a group.
\<close>

definition render_group :: "int \<Rightarrow> (string \<times> pr list) list \<Rightarrow> line list \<Rightarrow> string \<Rightarrow> line list" where
  "render_group cap byRepo lines r =
     (let repoPRs = (case map_of byRepo r of None \<Rightarrow> [] | Some g \<Rightarrow> g) in
      foldl (\<lambda>ls p. ls @ [PrTitle p, PrMeta p, Text []])
        (lines @ [Text [], RepoHeader r (length repoPRs), Text []])
        (slice0 repoPRs cap))"

text \<open>
  \<^verbatim>\<open>prs.sort((a, b) => b.days - a.days)\<close> is a stable sort by descending age, and
  \<^verbatim>\<open>Object.keys(byRepo).sort()\<close> sorts the identifiers as strings.
\<close>

definition renderSection :: "int \<Rightarrow> string \<Rightarrow> pr list \<Rightarrow> line list" where
  "renderSection cap ttl prs =
     (let lines = [Text [], Text rule, Text ttl, Text rule, Text []] in
      if prs = [] then lines @ [Text none_today, Text []]
      else
        let sorted = sort_key (\<lambda>p. - days p) prs;
            byRepo = foldl byRepo_push [] sorted
        in foldl (render_group cap byRepo) (lines @ [Text table_header, Text []])
             (sort (map fst byRepo)))"

definition months :: "string list" where
  "months = [''Jan'', ''Feb'', ''Mar'', ''Apr'', ''May'', ''Jun'',
             ''Jul'', ''Aug'', ''Sep'', ''Oct'', ''Nov'', ''Dec'']"

fun prettyDate :: "nat \<times> nat \<times> nat \<Rightarrow> string" where
  "prettyDate (y, m, d) =
     (if 1 \<le> m \<and> m \<le> 12 then months ! (m - 1) else ''undefined'')
     @ '' '' @ show_nat d @ '', '' @ show_nat y"

text \<open>\<^verbatim>\<open>out.join("\n")\<close>\<close>

fun join_lines :: "string list \<Rightarrow> string" where
  "join_lines [] = []"
| "join_lines [l] = l"
| "join_lines (l # m # ls) = l @ [CHR 0x0A] @ join_lines (m # ls)"

definition title_owned :: string where
  "title_owned = [CHR 0xF0, CHR 0x9F, CHR 0x93, CHR 0xA6] @ '' *Team Owned Repos*''"

definition title_non_owned :: string where
  "title_non_owned =
     [CHR 0xF0, CHR 0x9F, CHR 0xA7, CHR 0x91, CHR 0xE2, CHR 0x80, CHR 0x8D, CHR 0xF0, CHR 0x9F, CHR 0x92, CHR 0xBB]
     @ '' *Team PRs in Non-Owned Repos*''"

definition digest_lines :: "int \<Rightarrow> nat \<times> nat \<times> nat \<Rightarrow> pr list \<times> pr list \<Rightarrow> line list" where
  "digest_lines cap day sets =
     [Text ([CHR 0xF0, CHR 0x9F, CHR 0x93, CHR 0xAC] @ '' *PR Digest* '' @ em_dash @ '' '' @ prettyDate day)]
     @ renderSection cap title_owned (fst sets)
     @ renderSection cap title_non_owned (snd sets)"

section \<open>The run\<close>

text \<open>
  How a run ends: \<^verbatim>\<open>core.setFailed\<close> with a message, an exception that leaves the
  function, or \<^verbatim>\<open>core.setOutput("slack_text", ...)\<close>.
\<close>

datatype outcome = Failed string | Threw js_error | Output string

record result =
  outcome :: outcome
  final :: state

definition failed :: "string \<Rightarrow> result" where
  "failed msg = \<lparr>outcome = Failed msg, final = initial\<rparr>"

definition null_org_error :: js_error where
  "null_org_error =
     JsError None (''Cannot read properties of null (reading '' @ [CHR 0x27] @ ''org'' @ [CHR 0x27] @ '')'')"

text \<open>
  The script after its configuration guards (lines 42 to 202): fetch, classify, render.
\<close>

definition pipeline :: "env \<Rightarrow> github \<Rightarrow> config \<Rightarrow> json \<Rightarrow> result" where
  "pipeline e gh cfg org =
     (case fetch cfg org gh (clock e) of
        Inl (err, s) \<Rightarrow> \<lparr>outcome = Threw err, final = s\<rparr>
      | Inr s \<Rightarrow>
          \<lparr>outcome = Output (join_lines (map line_text
               (digest_lines (MAX_PRS_PER_REPO cfg) (today e)
                  (classify (array_or_empty (cfg_repos cfg)) (prMap s))))),
           final = s\<rparr>)"

text \<open>The configuration guards (lines 4 to 40), then the pipeline.\<close>

definition run :: "env \<Rightarrow> github \<Rightarrow> result" where
  "run e gh =
     (case PR_DIGEST_CONFIG e of
        None \<Rightarrow> failed ''Missing PR_DIGEST_CONFIG environment variable.''
      | Some cfgPath \<Rightarrow>
          if cfgPath = [] then failed ''Missing PR_DIGEST_CONFIG environment variable.''
          else if \<not> existsSync e cfgPath then failed (''PR digest config file not found: '' @ cfgPath)
          else (case read_json e cfgPath of
            ParseError m \<Rightarrow> failed (''Invalid JSON in '' @ cfgPath @ '': '' @ m)
          | ParsedNull \<Rightarrow> \<lparr>outcome = Threw null_org_error, final = initial\<rparr>
          | ParsedDoc cfg \<Rightarrow>
              (case cfg_org cfg of
                 None \<Rightarrow> failed (cfgPath @ '' must include '' @ [CHR 0x22] @ ''org'' @ [CHR 0x22])
               | Some org \<Rightarrow>
                   if \<not> truthy org
                   then failed (cfgPath @ '' must include '' @ [CHR 0x22] @ ''org'' @ [CHR 0x22])
                   else if array_or_empty (cfg_repos cfg) = [] \<and> array_or_empty (cfg_users cfg) = []
                   then failed (cfgPath @ '' must include at least one repo or one user'')
                   else pipeline e gh cfg org)))"

section \<open>Example inputs\<close>

text \<open>
  A client that answers every detail request with a record whose locator names the owner,
  the repository and the number; every listing has two pages of one item, every search one
  response, whose data is the array of items itself and so has no \<^verbatim>\<open>items\<close> of its own.
\<close>

definition example_data :: "string \<Rightarrow> string \<Rightarrow> int \<Rightarrow> pr_data" where
  "example_data owner rname n =
     \<lparr>d_html_url = ''https://x.test/'' @ owner @ ''/'' @ rname @ ''/pull/'' @ show_int n,
      d_number = n, d_title = ''t'', d_login = Some ''dev'', d_created_at = 0,
      d_additions = Some 1, d_deletions = None, d_draft = False\<rparr>"

definition example_github :: github where
  "example_github =
     \<lparr>pulls_get = (\<lambda>owner rname n. Inr (example_data owner rname n)),
      pulls_list = (\<lambda>owner rname. [Inr (Some [Summary (Some 1)]), Inr (Some [Summary (Some 2)])]),
      search = (\<lambda>q. Inr [None])\<rparr>"

text \<open>An environment whose configuration file \<^verbatim>\<open>cfg.json\<close> parses to the given document.\<close>

definition example_env :: "parsed \<Rightarrow> env" where
  "example_env doc =
     \<lparr>PR_DIGEST_CONFIG = Some ''cfg.json'', existsSync = (\<lambda>p. True),
      read_json = (\<lambda>p. doc), clock = (\<lambda>k. 864000000), today = (2026, 1, 5)\<rparr>"


text \<open>\<^verbatim>\<open>{"org": "acme", "repos": ["acme/core"], "max_total_prs": 1}\<close>\<close>

definition config_one_repo :: config where
  "config_one_repo =
     \<lparr>cfg_org = Some (JStr ''acme''), cfg_repos = Some (JArr [JStr ''acme/core'']), cfg_users = None,
      cfg_max_prs_per_repo = None, cfg_max_total_prs = Some 1,
      cfg_max_search_results_per_user = None\<rparr>"

text \<open>\<^verbatim>\<open>{"org": "", "repos": ["acme/core"]}\<close>: the field is there, its value is empty.\<close>

definition config_empty_org :: config where
  "config_empty_org =
     \<lparr>cfg_org = Some (JStr []), cfg_repos = Some (JArr [JStr ''acme/core'']), cfg_users = None,
      cfg_max_prs_per_repo = None, cfg_max_total_prs = None,
      cfg_max_search_results_per_user = None\<rparr>"

text \<open>\<^verbatim>\<open>{"org": "acme", "repos": "acme/core", "users": {}}\<close>: neither list is an array.\<close>

definition config_lists_not_arrays :: config where
  "config_lists_not_arrays =
     \<lparr>cfg_org = Some (JStr ''acme''), cfg_repos = Some (JStr ''acme/core''), cfg_users = Some (JObj []),
      cfg_max_prs_per_repo = None, cfg_max_total_prs = None,
      cfg_max_search_results_per_user = None\<rparr>"

section \<open>The conditions of the configuration guards, in the words of the specification\<close>

text \<open>The run fails fast: it ends in \<^verbatim>\<open>core.setFailed\<close>, so it sets no output.\<close>

definition fails_fast :: "result \<Rightarrow> bool" where
  "fails_fast r = (case outcome r of Failed msg \<Rightarrow> True | _ \<Rightarrow> False)"

text \<open>The document the configuration file parses to, when the source names one.\<close>

definition document :: "env \<Rightarrow> parsed option" where
  "document e = (case PR_DIGEST_CONFIG e of None \<Rightarrow> None | Some p \<Rightarrow> Some (read_json e p))"

text \<open>The configuration source is unspecified: the variable is unset or empty.\<close>

definition source_unspecified :: "env \<Rightarrow> bool" where
  "source_unspecified e = (case PR_DIGEST_CONFIG e of None \<Rightarrow> True | Some p \<Rightarrow> p = [])"

text \<open>The configuration file does not exist.\<close>

definition file_missing :: "env \<Rightarrow> bool" where
  "file_missing e = (case PR_DIGEST_CONFIG e of None \<Rightarrow> False | Some p \<Rightarrow> \<not> existsSync e p)"

text \<open>Its content is not valid JSON (reading or parsing it throws).\<close>

definition content_invalid :: "env \<Rightarrow> bool" where
  "content_invalid e = (case document e of Some (ParseError m) \<Rightarrow> True | _ \<Rightarrow> False)"

text \<open>The organization field is absent.\<close>

definition org_absent :: "env \<Rightarrow> bool" where
  "org_absent e = (case document e of Some (ParsedDoc cfg) \<Rightarrow> cfg_org cfg = None | _ \<Rightarrow> False)"

text \<open>The organization field is absent or falsy.\<close>

definition org_falsy :: "env \<Rightarrow> bool" where
  "org_falsy e = (case document e of Some (ParsedDoc cfg) \<Rightarrow> falsy_opt (cfg_org cfg) | _ \<Rightarrow> False)"

text \<open>Both the repo list and the author list are empty.\<close>

definition lists_empty :: "env \<Rightarrow> bool" where
  "lists_empty e =
     (case document e of
        Some (ParsedDoc cfg) \<Rightarrow>
          array_or_empty (cfg_repos cfg) = [] \<and> array_or_empty (cfg_users cfg) = []
      | _ \<Rightarrow> False)"

text \<open>The document is \<^verbatim>\<open>null\<close>, on which reading \<^verbatim>\<open>cfg.org\<close> throws.\<close>

definition null_document :: "env \<Rightarrow> bool" where
  "null_document e = (document e = Some ParsedNull)"

text \<open>A record of the merge map, and a merge map of three records in two repositories.\<close>

definition example_pr :: "string \<Rightarrow> int \<Rightarrow> int \<Rightarrow> pr" where
  "example_pr r n age =
     \<lparr>repo = r, number = n, title = ''t'', url = ''https://x.test/'' @ r @ ''/pull/'' @ show_int n,
      author = ''dev'', days = age, additions = 1, deletions = 0, draft = False\<rparr>"

definition example_repos :: "json list" where
  "example_repos = [JStr ''acme/core'', JStr ''Acme/Web'']"

definition example_map :: "(string \<times> pr) list" where
  "example_map =
     [(''https://x.test/acme/core/pull/5'', example_pr ''acme/core'' 5 3),
      (''https://x.test/acme/web/pull/1'', example_pr ''acme/web'' 1 4),
      (''https://x.test/acme/core/pull/7'', example_pr ''acme/core'' 7 9)]"

section \<open>Invariants of the fetch loops\<close>

text \<open>
  \<open>I\<close> is what holds of the state while the loops run, \<open>Q\<close> what holds of the state
  at a throw. \<open>preserved\<close> says that \<^verbatim>\<open>addPR\<close> and the logging of a listing or search
  request keep them.
\<close>

definition step_ok :: "(state \<Rightarrow> bool) \<Rightarrow> (js_error \<Rightarrow> state \<Rightarrow> bool) \<Rightarrow> step \<Rightarrow> bool" where
  "step_ok I Q r = (case r of Inl (e, s') \<Rightarrow> Q e s' | Inr s' \<Rightarrow> I s')"

definition preserved ::
  "github \<Rightarrow> (nat \<Rightarrow> int) \<Rightarrow> (state \<Rightarrow> bool) \<Rightarrow> (js_error \<Rightarrow> state \<Rightarrow> bool) \<Rightarrow> bool" where
  "preserved gh clk I Q =
     ((\<forall>s owner rname n. I s \<longrightarrow> step_ok I Q (addPR gh clk owner rname n s)) \<and>
      (\<forall>s owner rname k. I s \<longrightarrow> I (s\<lparr>calls := calls s @ [PullsListPage owner rname k]\<rparr>)) \<and>
      (\<forall>s q. I s \<longrightarrow> I (s\<lparr>calls := calls s @ [Search q]\<rparr>)) \<and>
      (\<forall>s e. I s \<longrightarrow> Q e s))"

text \<open>
  A detail request of the trace is harmless when it succeeded or reported status 404. At a
  throw, every request that is not harmless is the one that threw.
\<close>

definition detail_ok :: "github \<Rightarrow> api_call \<Rightarrow> bool" where
  "detail_ok gh c =
     (case c of
        PullsGet owner rname n \<Rightarrow>
          (case pulls_get gh owner rname n of Inl e \<Rightarrow> status e = Some 404 | Inr d \<Rightarrow> True)
      | _ \<Rightarrow> True)"

definition details_ok :: "github \<Rightarrow> state \<Rightarrow> bool" where
  "details_ok gh s = (\<forall>c\<in>set (calls s). detail_ok gh c)"

definition thrown_by :: "github \<Rightarrow> js_error \<Rightarrow> state \<Rightarrow> bool" where
  "thrown_by gh e s =
     (\<forall>c\<in>set (calls s). \<not> detail_ok gh c \<longrightarrow>
        (case c of PullsGet owner rname n \<Rightarrow> pulls_get gh owner rname n = Inl e | _ \<Rightarrow> False))"

text \<open>
  A client whose detail fetch reports not found for number 1 and a server error for number 2;
  every listing is one page of the numbers 1, 2 and 3.
\<close>

definition failing_github :: github where
  "failing_github =
     \<lparr>pulls_get = (\<lambda>owner rname n.
        if n = 1 then Inl (JsError (Some 404) ''Not Found'')
        else if n = 2 then Inl (JsError (Some 500) ''Server Error'')
        else Inr (example_data owner rname n)),
      pulls_list = (\<lambda>owner rname. [Inr (Some [Summary (Some 1), Summary (Some 2), Summary (Some 3)])]),
      search = (\<lambda>q. Inr [])\<rparr>"






text \<open>
  The suffix the regular expression describes, in the words of the specification:
  \<^verbatim>\<open>/repos/{owner}/{repo}/issues/{number}\<close> with non-empty slash-free owner and repo and a
  non-empty string of digits.
\<close>

definition issue_suffix :: "string \<Rightarrow> string \<Rightarrow> string \<Rightarrow> string" where
  "issue_suffix owner rname ds = ''/repos/'' @ owner @ ''/'' @ rname @ ''/issues/'' @ ds"

definition well_formed :: "string \<Rightarrow> string \<Rightarrow> string \<Rightarrow> bool" where
  "well_formed owner rname ds =
     (owner \<noteq> [] \<and> list_all not_slash owner \<and> rname \<noteq> [] \<and> list_all not_slash rname \<and>
      ds \<noteq> [] \<and> list_all is_digit ds)"

text \<open>The part of a string after its last slash, and the part before it.\<close>

definition last_segment :: "string \<Rightarrow> string" where
  "last_segment s = rev (takeWhile not_slash (rev s))"

definition before_last_segment :: "string \<Rightarrow> string" where
  "before_last_segment s = rev (drop 1 (dropWhile not_slash (rev s)))"

text \<open>
  Reading a rendered section back: a repository group is a sub-header line (with the
  identifier and the count it shows) and the records of the title lines that follow it, up
  to the next sub-header.
\<close>

fun is_RepoHeader :: "line \<Rightarrow> bool" where
  "is_RepoHeader (RepoHeader r n) = True"
| "is_RepoHeader l = False"

fun title_prs :: "line list \<Rightarrow> pr list" where
  "title_prs [] = []"
| "title_prs (PrTitle p # ls) = p # title_prs ls"
| "title_prs (l # ls) = title_prs ls"

fun rendered_groups :: "line list \<Rightarrow> (string \<times> nat \<times> pr list) list" where
  "rendered_groups [] = []"
| "rendered_groups (RepoHeader r n # ls) =
     (r, n, title_prs (takeWhile (\<lambda>l. \<not> is_RepoHeader l) ls)) # rendered_groups ls"
| "rendered_groups (l # ls) = rendered_groups ls"

text \<open>The lines of one group, and the lines before the first group.\<close>

definition record_lines :: "pr list \<Rightarrow> line list" where
  "record_lines ps = concat (map (\<lambda>p. [PrTitle p, PrMeta p, Text []]) ps)"

definition group_lines :: "string \<times> nat \<times> pr list \<Rightarrow> line list" where
  "group_lines g = (case g of (r, n, ps) \<Rightarrow> [Text [], RepoHeader r n, Text []] @ record_lines ps)"

definition section_head :: "string \<Rightarrow> line list" where
  "section_head ttl =
     [Text [], Text rule, Text ttl, Text rule, Text [], Text table_header, Text []]"

text \<open>The records of a repository in descending order of age, as a stable sort leaves them.\<close>

definition by_age :: "pr list \<Rightarrow> pr list" where
  "by_age prs = sort_key (\<lambda>p. - days p) prs"

definition group_of :: "pr list \<Rightarrow> string \<Rightarrow> pr list" where
  "group_of prs r = filter (\<lambda>p. repo p = r) (by_age prs)"

text \<open>Four records in two repositories, two of them of the same age.\<close>

definition example_prs :: "pr list" where
  "example_prs =
     [example_pr ''acme/web'' 1 4, example_pr ''acme/core'' 5 3, example_pr ''acme/core'' 7 9,
      example_pr ''acme/core'' 8 3]"

section \<open>The cap between pages\<close>

text \<open>
  C2. Once the collection has reached the cap, no further listing page is claimed to be
  processed. The cap is tested between repositories and between the items of a page, not
  between pages: with a cap of one, the first item of the first page fills the collection
  (its detail fetch is the only one of the run, and the collection ends with one entry),
  and the second page of the same repository is still requested after it.
\<close>

theorem page_requested_after_cap:
  "MAX_TOTAL_PRS config_one_repo = 1 \<and>
   length (prMap (final (run (example_env (ParsedDoc config_one_repo)) example_github))) = 1 \<and>
   calls (final (run (example_env (ParsedDoc config_one_repo)) example_github)) =
     [PullsListPage ''acme'' ''core'' 0, PullsGet ''acme'' ''core'' 1, PullsListPage ''acme'' ''core'' 1]"
  by code_simp

section \<open>The configuration guards\<close>

lemma pipeline_not_Failed: "outcome (pipeline e gh cfg org) \<noteq> Failed msg"
  by (simp add: pipeline_def split: sum.splits prod.splits)

lemma fails_fast_failed: "fails_fast (failed msg)"
  by (simp add: fails_fast_def failed_def)

lemma fails_fast_pipeline: "\<not> fails_fast (pipeline e gh cfg org)"
  by (simp add: fails_fast_def pipeline_not_Failed split: outcome.splits)

lemma final_failed: "final (failed msg) = initial"
  by (simp add: failed_def)

lemma run_fails_fast_iff:
  assumes "\<not> null_document e"
  shows "fails_fast (run e gh) \<longleftrightarrow>
         source_unspecified e \<or> file_missing e \<or> content_invalid e \<or> org_falsy e \<or> lists_empty e"
  using assms
  by (auto simp: run_def null_document_def document_def source_unspecified_def file_missing_def
        content_invalid_def org_falsy_def lists_empty_def falsy_opt_def
        fails_fast_failed fails_fast_pipeline
      split: option.splits parsed.splits)

lemma run_fails_fast_final: "fails_fast (run e gh) \<Longrightarrow> final (run e gh) = initial"
  by (auto simp: run_def final_failed fails_fast_pipeline null_org_error_def
      split: option.splits parsed.splits if_splits)

text \<open>
  C7, as amended. For a configuration document other than \<^verbatim>\<open>null\<close>, the run fails fast
  (a \<^verbatim>\<open>core.setFailed\<close> message, no output) exactly when the configuration source is
  unset or empty, the file does not exist, reading or parsing it throws, the organization
  field is absent or falsy, or both lists are empty; and then no remote call has been made
  and nothing has been merged.
\<close>

theorem config_guards:
  assumes "\<not> null_document e"
  shows "(fails_fast (run e gh) \<longleftrightarrow>
            source_unspecified e \<or> file_missing e \<or> content_invalid e \<or> org_falsy e \<or> lists_empty e) \<and>
         (fails_fast (run e gh) \<longrightarrow> final (run e gh) = initial)"
  using run_fails_fast_iff[OF assms] run_fails_fast_final by blast

theorem config_guards_witness:
  "\<not> null_document (example_env (ParsedDoc config_empty_org)) \<and>
   org_falsy (example_env (ParsedDoc config_empty_org)) \<and>
   fails_fast (run (example_env (ParsedDoc config_empty_org)) example_github) \<and>
   final (run (example_env (ParsedDoc config_empty_org)) example_github) = initial"
proof -
  have n: "\<not> null_document (example_env (ParsedDoc config_empty_org))"
    by (simp add: null_document_def document_def example_env_def)
  have f: "org_falsy (example_env (ParsedDoc config_empty_org))"
    by (simp add: org_falsy_def document_def example_env_def config_empty_org_def falsy_opt_def)
  show ?thesis using config_guards[OF n, of example_github] n f by blast
qed

text \<open>
  C7, as stated, has the organization field absent where the guard of line 32 tests
  \<^verbatim>\<open>!org\<close>. With \<^verbatim>\<open>"org": ""\<close> the field is present, none of the five conditions holds, and
  the run fails fast all the same.
\<close>

theorem empty_org_fails_fast:
  "outcome (run (example_env (ParsedDoc config_empty_org)) example_github) =
     Failed (''cfg.json must include '' @ [CHR 0x22] @ ''org'' @ [CHR 0x22]) \<and>
   \<not> source_unspecified (example_env (ParsedDoc config_empty_org)) \<and>
   \<not> file_missing (example_env (ParsedDoc config_empty_org)) \<and>
   \<not> content_invalid (example_env (ParsedDoc config_empty_org)) \<and>
   \<not> org_absent (example_env (ParsedDoc config_empty_org)) \<and>
   \<not> lists_empty (example_env (ParsedDoc config_empty_org))"
  by (simp add: run_def example_env_def config_empty_org_def failed_def source_unspecified_def
      file_missing_def content_invalid_def org_absent_def lists_empty_def document_def array_or_empty_def)

lemma array_or_empty_not_array: "\<not> isArray v \<Longrightarrow> array_or_empty v = []"
  by (auto simp: isArray_def array_or_empty_def split: option.splits json.splits)

lemma array_or_empty_JArr: "array_or_empty (Some (JArr xs)) = xs"
  by (simp add: array_or_empty_def)

lemma pipeline_cong_repos:
  "array_or_empty (cfg_repos cfg) = array_or_empty (cfg_repos cfg') \<Longrightarrow>
   array_or_empty (cfg_users cfg) = array_or_empty (cfg_users cfg') \<Longrightarrow>
   MAX_PRS_PER_REPO cfg = MAX_PRS_PER_REPO cfg' \<Longrightarrow> MAX_TOTAL_PRS cfg = MAX_TOTAL_PRS cfg' \<Longrightarrow>
   MAX_SEARCH_RESULTS_PER_USER cfg = MAX_SEARCH_RESULTS_PER_USER cfg' \<Longrightarrow>
   clock e = clock e' \<Longrightarrow> today e = today e' \<Longrightarrow>
   pipeline e gh cfg org = pipeline e' gh cfg' org"
  by (simp add: pipeline_def fetch_def cong: sum.case_cong prod.case_cong)

text \<open>
  C10. A \<^verbatim>\<open>repos\<close> or \<^verbatim>\<open>users\<close> field that is not an array is taken as the empty list:
  the run is the run of the same document with \<^verbatim>\<open>[]\<close> in its place. When neither is an
  array (and the organization is given), the run fails with the message of the guard of
  line 37, not with a message about the content.
\<close>

theorem non_array_lists_taken_as_empty:
  assumes "PR_DIGEST_CONFIG e = Some p" and "p \<noteq> []" and "existsSync e p"
    and "read_json e p = ParsedDoc cfg"
  shows "(\<not> isArray (cfg_repos cfg) \<longrightarrow>
            run e gh = run (e\<lparr>read_json := (read_json e)(p := ParsedDoc (cfg\<lparr>cfg_repos := Some (JArr [])\<rparr>))\<rparr>) gh) \<and>
         (\<not> isArray (cfg_users cfg) \<longrightarrow>
            run e gh = run (e\<lparr>read_json := (read_json e)(p := ParsedDoc (cfg\<lparr>cfg_users := Some (JArr [])\<rparr>))\<rparr>) gh) \<and>
         (\<not> isArray (cfg_repos cfg) \<and> \<not> isArray (cfg_users cfg) \<and> \<not> falsy_opt (cfg_org cfg) \<longrightarrow>
            run e gh = failed (p @ '' must include at least one repo or one user''))"
proof (intro conjI impI)
  assume r: "\<not> isArray (cfg_repos cfg)"
  have "pipeline e gh cfg org =
        pipeline (e\<lparr>read_json := (read_json e)(p := ParsedDoc (cfg\<lparr>cfg_repos := Some (JArr [])\<rparr>))\<rparr>) gh
          (cfg\<lparr>cfg_repos := Some (JArr [])\<rparr>) org" for org
    by (rule pipeline_cong_repos)
       (simp_all add: array_or_empty_not_array[OF r] array_or_empty_JArr MAX_PRS_PER_REPO_def
          MAX_TOTAL_PRS_def MAX_SEARCH_RESULTS_PER_USER_def)
  then show "run e gh = run (e\<lparr>read_json := (read_json e)(p := ParsedDoc (cfg\<lparr>cfg_repos := Some (JArr [])\<rparr>))\<rparr>) gh"
    using assms by (simp add: run_def array_or_empty_not_array[OF r] array_or_empty_JArr split: option.splits)
next
  assume u: "\<not> isArray (cfg_users cfg)"
  have "pipeline e gh cfg org =
        pipeline (e\<lparr>read_json := (read_json e)(p := ParsedDoc (cfg\<lparr>cfg_users := Some (JArr [])\<rparr>))\<rparr>) gh
          (cfg\<lparr>cfg_users := Some (JArr [])\<rparr>) org" for org
    by (rule pipeline_cong_repos)
       (simp_all add: array_or_empty_not_array[OF u] array_or_empty_JArr MAX_PRS_PER_REPO_def
          MAX_TOTAL_PRS_def MAX_SEARCH_RESULTS_PER_USER_def)
  then show "run e gh = run (e\<lparr>read_json := (read_json e)(p := ParsedDoc (cfg\<lparr>cfg_users := Some (JArr [])\<rparr>))\<rparr>) gh"
    using assms by (simp add: run_def array_or_empty_not_array[OF u] array_or_empty_JArr split: option.splits)
next
  assume "\<not> isArray (cfg_repos cfg) \<and> \<not> isArray (cfg_users cfg) \<and> \<not> falsy_opt (cfg_org cfg)"
  then show "run e gh = failed (p @ '' must include at least one repo or one user'')"
    using assms by (auto simp: run_def array_or_empty_not_array falsy_opt_def split: option.splits)
qed

theorem non_array_lists_taken_as_empty_witness:
  "\<not> isArray (cfg_repos config_lists_not_arrays) \<and> \<not> isArray (cfg_users config_lists_not_arrays) \<and>
   run (example_env (ParsedDoc config_lists_not_arrays)) example_github =
     run (example_env (ParsedDoc config_lists_not_arrays)
           \<lparr>read_json := (read_json (example_env (ParsedDoc config_lists_not_arrays)))
              (''cfg.json'' := ParsedDoc (config_lists_not_arrays\<lparr>cfg_repos := Some (JArr [])\<rparr>))\<rparr>)
       example_github \<and>
   run (example_env (ParsedDoc config_lists_not_arrays)) example_github =
     run (example_env (ParsedDoc config_lists_not_arrays)
           \<lparr>read_json := (read_json (example_env (ParsedDoc config_lists_not_arrays)))
              (''cfg.json'' := ParsedDoc (config_lists_not_arrays\<lparr>cfg_users := Some (JArr [])\<rparr>))\<rparr>)
       example_github \<and>
   run (example_env (ParsedDoc config_lists_not_arrays)) example_github =
     failed ''cfg.json must include at least one repo or one user''"
proof -
  let ?e = "example_env (ParsedDoc config_lists_not_arrays)"
  have h: "PR_DIGEST_CONFIG ?e = Some ''cfg.json''" "''cfg.json'' \<noteq> []" "existsSync ?e ''cfg.json''"
    "read_json ?e ''cfg.json'' = ParsedDoc config_lists_not_arrays"
    by (simp_all add: example_env_def)
  have a: "\<not> isArray (cfg_repos config_lists_not_arrays)" "\<not> isArray (cfg_users config_lists_not_arrays)"
    "\<not> falsy_opt (cfg_org config_lists_not_arrays)"
    by (simp_all add: config_lists_not_arrays_def isArray_def falsy_opt_def)
  note t = non_array_lists_taken_as_empty[OF h, of example_github]
  from t a have 1: "run ?e example_github =
      run (?e\<lparr>read_json := (read_json ?e)
              (''cfg.json'' := ParsedDoc (config_lists_not_arrays\<lparr>cfg_repos := Some (JArr [])\<rparr>))\<rparr>) example_github"
    by blast
  from t a have 2: "run ?e example_github =
      run (?e\<lparr>read_json := (read_json ?e)
              (''cfg.json'' := ParsedDoc (config_lists_not_arrays\<lparr>cfg_users := Some (JArr [])\<rparr>))\<rparr>) example_github"
    by blast
  from t a have "run ?e example_github = failed (''cfg.json'' @ '' must include at least one repo or one user'')"
    by blast
  then have 3: "run ?e example_github = failed ''cfg.json must include at least one repo or one user''"
    by simp
  from a 1 2 3 show ?thesis by blast
qed

section \<open>Classification is a partition\<close>

lemma classify_loop_filter:
  "classify_loop S ps (ow, no) =
     (ow @ filter (\<lambda>p. repo p \<in> S) ps, no @ filter (\<lambda>p. repo p \<notin> S) ps)"
  by (induction ps arbitrary: ow no) simp_all

lemma classify_filter:
  "classify repos m =
     (filter (\<lambda>p. repo p \<in> teamRepoSet repos) (map snd m),
      filter (\<lambda>p. repo p \<notin> teamRepoSet repos) (map snd m))"
  by (simp add: classify_def classify_loop_filter)

lemma String_or_empty_JStr: "String_or_empty (JStr t) = t"
  by (simp add: String_or_empty_def)

lemma teamRepoSet_mem:
  "x \<in> teamRepoSet repos \<longleftrightarrow> (\<exists>r\<in>set repos. x = trim (String_or_empty r))"
  by (auto simp: teamRepoSet_def)

lemma teamRepoSet_trimmed:
  assumes "\<forall>r\<in>set repos. \<exists>t. r = JStr t \<and> trim t = t"
  shows "x \<in> teamRepoSet repos \<longleftrightarrow> JStr x \<in> set repos"
proof
  assume "x \<in> teamRepoSet repos"
  then obtain r where r: "r \<in> set repos" "x = trim (String_or_empty r)"
    by (auto simp: teamRepoSet_mem)
  with assms obtain t where t: "r = JStr t" "trim t = t" by blast
  with r show "JStr x \<in> set repos" by (simp add: String_or_empty_JStr)
next
  assume a: "JStr x \<in> set repos"
  with assms have "trim x = x" by auto
  then have "x = trim (String_or_empty (JStr x))" by (simp add: String_or_empty_JStr)
  with a show "x \<in> teamRepoSet repos" unfolding teamRepoSet_mem by blast
qed

text \<open>
  C3. Classification is a total, disjoint partition of the merged collection: the owned
  records are those whose repository identifier equals, as a string, an entry of the repo
  list (the entry as line 133 trims it), the non-owned records are all the others, every
  record is in exactly one of the two, and the two sizes sum to the size of the collection.
  For a repo list of trimmed strings, owned means that the identifier is an entry of the
  list.
\<close>

theorem classification_partition:
  assumes "classify repos m = (teamOwned, teamNonOwned)"
  shows "teamOwned = filter (\<lambda>p. \<exists>r\<in>set repos. repo p = trim (String_or_empty r)) (map snd m) \<and>
         teamNonOwned = filter (\<lambda>p. \<not> (\<exists>r\<in>set repos. repo p = trim (String_or_empty r))) (map snd m) \<and>
         (\<forall>p\<in>set (map snd m). (p \<in> set teamOwned) \<noteq> (p \<in> set teamNonOwned)) \<and>
         length teamOwned + length teamNonOwned = length m \<and>
         ((\<forall>r\<in>set repos. \<exists>t. r = JStr t \<and> trim t = t) \<longrightarrow>
            (\<forall>p\<in>set (map snd m). p \<in> set teamOwned \<longleftrightarrow> JStr (repo p) \<in> set repos))"
proof -
  let ?P = "\<lambda>p. \<exists>r\<in>set repos. repo p = trim (String_or_empty r)"
  from assms have o: "teamOwned = filter ?P (map snd m)"
    and n: "teamNonOwned = filter (\<lambda>p. \<not> ?P p) (map snd m)"
    by (simp_all add: classify_filter teamRepoSet_mem)
  have len: "length teamOwned + length teamNonOwned = length m"
    unfolding o n using sum_length_filter_compl[of ?P "map snd m"] by simp
  have ex: "\<forall>p\<in>set (map snd m). (p \<in> set teamOwned) \<noteq> (p \<in> set teamNonOwned)"
    unfolding o n by auto
  have tr: "(\<forall>r\<in>set repos. \<exists>t. r = JStr t \<and> trim t = t) \<longrightarrow>
            (\<forall>p\<in>set (map snd m). p \<in> set teamOwned \<longleftrightarrow> JStr (repo p) \<in> set repos)"
  proof (intro impI ballI)
    fix p assume t: "\<forall>r\<in>set repos. \<exists>t. r = JStr t \<and> trim t = t" and p: "p \<in> set (map snd m)"
    have "?P p \<longleftrightarrow> JStr (repo p) \<in> set repos"
      using teamRepoSet_trimmed[OF t, of "repo p"] by (simp add: teamRepoSet_mem)
    with p show "p \<in> set teamOwned \<longleftrightarrow> JStr (repo p) \<in> set repos"
      unfolding o by simp
  qed
  show ?thesis
    apply (intro conjI)
        apply (rule o)
       apply (rule n)
      apply (rule ex)
     apply (rule len)
    apply (rule tr)
    done
qed

theorem classification_partition_witness:
  "classify example_repos example_map =
     ([example_pr ''acme/core'' 5 3, example_pr ''acme/core'' 7 9], [example_pr ''acme/web'' 1 4]) \<and>
   length [example_pr ''acme/core'' 5 3, example_pr ''acme/core'' 7 9] + length [example_pr ''acme/web'' 1 4]
     = length example_map \<and>
   JStr ''acme/core'' \<in> set example_repos \<and>
   JStr ''acme/web'' \<notin> set example_repos"
proof -
  have c: "classify example_repos example_map =
     ([example_pr ''acme/core'' 5 3, example_pr ''acme/core'' 7 9], [example_pr ''acme/web'' 1 4])"
    by (simp add: classify_def example_repos_def example_map_def teamRepoSet_def String_or_empty_def
        trim_def is_space_def example_pr_def)
  have t: "\<forall>r\<in>set example_repos. \<exists>t. r = JStr t \<and> trim t = t"
    by (simp add: example_repos_def trim_def is_space_def)
  have m: "example_pr ''acme/core'' 5 3 \<in> set (map snd example_map)"
    "example_pr ''acme/web'' 1 4 \<in> set (map snd example_map)"
    by (simp_all add: example_map_def)
  have r: "repo (example_pr ''acme/core'' 5 3) = ''acme/core''" "repo (example_pr ''acme/web'' 1 4) = ''acme/web''"
    by (simp_all add: example_pr_def)
  have w: "example_pr ''acme/web'' 1 4 \<notin> set [example_pr ''acme/core'' 5 3, example_pr ''acme/core'' 7 9]"
    by (simp add: example_pr_def)
  note p = classification_partition[OF c]
  from p have l: "length [example_pr ''acme/core'' 5 3, example_pr ''acme/core'' 7 9] +
      length [example_pr ''acme/web'' 1 4] = length example_map"
    by blast
  from p t have "\<forall>p\<in>set (map snd example_map).
      p \<in> set [example_pr ''acme/core'' 5 3, example_pr ''acme/core'' 7 9] \<longleftrightarrow> JStr (repo p) \<in> set example_repos"
    by blast
  with m r w have "JStr ''acme/core'' \<in> set example_repos \<and> JStr ''acme/web'' \<notin> set example_repos"
    by (metis list.set_intros(1))
  with c l show ?thesis by blast
qed

section \<open>What the fetch loops preserve\<close>

lemma step_ok_Inr [simp]: "step_ok I Q (Inr s) = I s"
  by (simp add: step_ok_def)

lemma step_ok_Inl [simp]: "step_ok I Q (Inl (e, s)) = Q e s"
  by (simp add: step_ok_def)

lemma step_ok_bind:
  assumes "step_ok I Q r" and "\<And>s'. r = Inr s' \<Longrightarrow> I s' \<Longrightarrow> step_ok I Q (f s')"
  shows "step_ok I Q (case r of Inl es \<Rightarrow> Inl es | Inr s' \<Rightarrow> f s')"
  using assms by (cases r) auto

lemma preserved_addPR: "preserved gh clk I Q \<Longrightarrow> I s \<Longrightarrow> step_ok I Q (addPR gh clk owner rname n s)"
  by (simp add: preserved_def)

lemma records_loop_preserved:
  assumes "preserved gh clk I Q"
  shows "I s \<Longrightarrow> step_ok I Q (records_loop cap gh clk owner rname ps s)"
proof (induction ps arbitrary: s)
  case Nil
  then show ?case by simp
next
  case (Cons p ps)
  show ?case
  proof (cases "at_cap cap s")
    case True
    with Cons.prems show ?thesis by simp
  next
    case False
    show ?thesis
    proof (cases "summary_number p")
      case None
      with False Cons show ?thesis by simp
    next
      case (Some n)
      have "step_ok I Q (case addPR gh clk owner rname n s of Inl es \<Rightarrow> Inl es
              | Inr s' \<Rightarrow> records_loop cap gh clk owner rname ps s')"
        by (rule step_ok_bind[OF preserved_addPR[OF assms Cons.prems]]) (rule Cons.IH)
      with False Some show ?thesis by simp
    qed
  qed
qed

lemma pages_loop_preserved:
  assumes "preserved gh clk I Q"
  shows "I s \<Longrightarrow> step_ok I Q (pages_loop cap gh clk owner rname k pgs s)"
proof (induction pgs arbitrary: s k)
  case Nil
  then show ?case by simp
next
  case (Cons pg pgs)
  let ?s1 = "s\<lparr>calls := calls s @ [PullsListPage owner rname k]\<rparr>"
  from assms Cons.prems have s1: "I ?s1" by (simp add: preserved_def)
  show ?case
  proof (cases pg)
    case (Inl e)
    from assms s1 have "Q e ?s1" by (simp add: preserved_def)
    with Inl show ?thesis by (simp add: Let_def)
  next
    case (Inr page)
    have "step_ok I Q (case records_loop cap gh clk owner rname (case page of None \<Rightarrow> [] | Some prs \<Rightarrow> prs) ?s1 of
             Inl es \<Rightarrow> Inl es | Inr s2 \<Rightarrow> pages_loop cap gh clk owner rname (Suc k) pgs s2)"
      by (rule step_ok_bind[OF records_loop_preserved[OF assms s1]]) (rule Cons.IH)
    with Inr show ?thesis by (simp add: Let_def)
  qed
qed

lemma repos_loop_preserved:
  assumes "preserved gh clk I Q"
  shows "I s \<Longrightarrow> step_ok I Q (repos_loop cap gh clk rs s)"
proof (induction rs arbitrary: s)
  case Nil
  then show ?case by simp
next
  case (Cons r rs)
  let ?parts = "split_on CHR ''/'' (trim (String_or_empty r))"
  let ?o = "at_index ?parts 0" and ?n = "at_index ?parts 1"
  show ?case
  proof (cases "at_cap cap s")
    case True
    with Cons.prems show ?thesis by simp
  next
    case False
    show ?thesis
    proof (cases "falsy_str ?o \<or> falsy_str ?n")
      case True
      with False Cons show ?thesis by (simp add: Let_def)
    next
      case f: False
      have "step_ok I Q (case pages_loop cap gh clk (the ?o) (the ?n) 0 (pulls_list gh (the ?o) (the ?n)) s of
              Inl es \<Rightarrow> Inl es | Inr s' \<Rightarrow> repos_loop cap gh clk rs s')"
        by (rule step_ok_bind[OF pages_loop_preserved[OF assms Cons.prems]]) (rule Cons.IH)
      with False f show ?thesis by (simp add: Let_def)
    qed
  qed
qed

lemma items_loop_preserved:
  assumes "preserved gh clk I Q"
  shows "I s \<Longrightarrow> step_ok I Q (items_loop gh clk its s)"
proof (induction its arbitrary: s)
  case Nil
  then show ?case by simp
next
  case (Cons it its)
  show ?case
  proof (cases it)
    case NotObject
    with Cons show ?thesis by simp
  next
    case (SearchItem uo)
    show ?thesis
    proof (cases uo)
      case None
      with SearchItem Cons show ?thesis by simp
    next
      case (Some u)
      show ?thesis
      proof (cases "u = [] \<or> url_match u = None")
        case True
        with SearchItem Some Cons show ?thesis by auto
      next
        case False
        then obtain owner rname ds where m: "url_match u = Some (owner, rname, ds)" by auto
        have "step_ok I Q (case addPR gh clk owner rname (Number_digits ds) s of Inl es \<Rightarrow> Inl es
                | Inr s' \<Rightarrow> items_loop gh clk its s')"
          by (rule step_ok_bind[OF preserved_addPR[OF assms Cons.prems]]) (rule Cons.IH)
        with False SearchItem Some m Cons show ?thesis by simp
      qed
    qed
  qed
qed

lemma users_loop_preserved:
  assumes "preserved gh clk I Q"
  shows "I s \<Longrightarrow> step_ok I Q (users_loop cap scap org gh clk us s)"
proof (induction us arbitrary: s)
  case Nil
  then show ?case by simp
next
  case (Cons u us)
  let ?q = "search_query org (user_handle u)"
  let ?s1 = "s\<lparr>calls := calls s @ [Search ?q]\<rparr>"
  from assms Cons.prems have s1: "I ?s1" by (simp add: preserved_def)
  show ?case
  proof (cases "at_cap cap s \<or> user_handle u = []")
    case True
    with Cons show ?thesis by auto
  next
    case False
    show ?thesis
    proof (cases "search gh ?q")
      case (Inl e)
      from assms s1 have "Q e ?s1" by (simp add: preserved_def)
      with False Inl show ?thesis by (simp add: Let_def)
    next
      case (Inr rs)
      have "step_ok I Q (case items_loop gh clk (slice0 (search_results rs) scap) ?s1 of
               Inl es \<Rightarrow> Inl es | Inr s' \<Rightarrow> users_loop cap scap org gh clk us s')"
        by (rule step_ok_bind[OF items_loop_preserved[OF assms s1]]) (rule Cons.IH)
      with False Inr show ?thesis by (simp add: Let_def)
    qed
  qed
qed

lemma fetch_preserved:
  assumes "preserved gh clk I Q" and "I initial"
  shows "step_ok I Q (fetch cfg org gh clk)"
  unfolding fetch_def
  by (rule step_ok_bind[OF repos_loop_preserved[OF assms]]) (rule users_loop_preserved[OF assms(1)])

text \<open>The final state of a run is the initial state or the state the fetch ended in.\<close>

lemma run_cases:
  obtains (early) "final (run e gh) = initial" "\<forall>s. outcome (run e gh) \<noteq> Output s"
        | (threw) cfg org err s where "fetch cfg org gh (clock e) = Inl (err, s)"
            "outcome (run e gh) = Threw err" "final (run e gh) = s"
        | (completed) cfg org s t where "fetch cfg org gh (clock e) = Inr s"
            "outcome (run e gh) = Output t" "final (run e gh) = s"
proof -
  show thesis
  proof (cases "\<exists>cfg org. run e gh = pipeline e gh cfg org")
    case True
    then obtain cfg org where r: "run e gh = pipeline e gh cfg org" by blast
    show ?thesis
    proof (cases "fetch cfg org gh (clock e)")
      case (Inl es)
      then show ?thesis using r threw[of cfg org "fst es" "snd es"]
        by (cases es) (simp add: pipeline_def)
    next
      case (Inr s)
      then show ?thesis using r completed[of cfg org s] by (simp add: pipeline_def)
    qed
  next
    case False
    then have "final (run e gh) = initial \<and> (\<forall>s. outcome (run e gh) \<noteq> Output s)"
      by (auto simp: run_def failed_def split: option.splits parsed.splits if_splits)
    then show ?thesis using early by blast
  qed
qed

lemma run_preserved:
  assumes "preserved gh (clock e) I Q" and "I initial"
  shows "case outcome (run e gh) of Threw err \<Rightarrow> Q err (final (run e gh)) | _ \<Rightarrow> I (final (run e gh))"
proof (cases e gh rule: run_cases)
  case early
  with assms(2) show ?thesis
    using assms(1) by (auto simp: preserved_def split: outcome.splits)
next
  case (threw cfg org err s)
  with fetch_preserved[OF assms, of cfg org] show ?thesis by simp
next
  case (completed cfg org s t)
  with fetch_preserved[OF assms, of cfg org] show ?thesis by simp
qed

section \<open>Failures of the detail fetch\<close>

lemma addPR_not_found:
  assumes "pulls_get gh owner rname n = Inl err" and "status err = Some 404"
  shows "addPR gh clk owner rname n s = Inr (s\<lparr>calls := calls s @ [PullsGet owner rname n]\<rparr>)"
  using assms by (simp add: addPR_def)

lemma addPR_other_error:
  assumes "pulls_get gh owner rname n = Inl err" and "status err \<noteq> Some 404"
  shows "addPR gh clk owner rname n s = Inl (err, s\<lparr>calls := calls s @ [PullsGet owner rname n]\<rparr>)"
  using assms by (simp add: addPR_def)

lemma details_ok_preserved: "preserved gh clk (details_ok gh) (thrown_by gh)"
  unfolding preserved_def
proof (intro conjI allI impI)
  fix s owner rname n assume s: "details_ok gh s"
  show "step_ok (details_ok gh) (thrown_by gh) (addPR gh clk owner rname n s)"
  proof (cases "pulls_get gh owner rname n")
    case (Inl e)
    show ?thesis
    proof (cases "status e = Some 404")
      case True
      with Inl s show ?thesis
        by (simp add: addPR_not_found details_ok_def detail_ok_def)
    next
      case False
      with Inl s show ?thesis
        by (auto simp: addPR_other_error details_ok_def thrown_by_def detail_ok_def)
    qed
  next
    case (Inr d)
    with s show ?thesis
      by (simp add: addPR_def details_ok_def detail_ok_def)
  qed
next
  fix s owner rname k assume "details_ok gh s"
  then show "details_ok gh (s\<lparr>calls := calls s @ [PullsListPage owner rname k]\<rparr>)"
    by (simp add: details_ok_def detail_ok_def)
next
  fix s q assume "details_ok gh s"
  then show "details_ok gh (s\<lparr>calls := calls s @ [Search q]\<rparr>)"
    by (simp add: details_ok_def detail_ok_def)
next
  fix s e assume "details_ok gh s"
  then show "thrown_by gh e s" by (simp add: details_ok_def thrown_by_def)
qed

lemma run_throws_detail_error:
  assumes c: "PullsGet owner rname n \<in> set (calls (final (run e gh)))"
    and g: "pulls_get gh owner rname n = Inl err" and st: "status err \<noteq> Some 404"
  shows "outcome (run e gh) = Threw err"
proof -
  have bad: "\<not> detail_ok gh (PullsGet owner rname n)"
    using g st by (simp add: detail_ok_def)
  have i: "details_ok gh initial" by (simp add: details_ok_def initial_def)
  note p = run_preserved[OF details_ok_preserved i, of e]
  show ?thesis
  proof (cases "outcome (run e gh)")
    case (Failed m)
    with p c bad show ?thesis by (auto simp: details_ok_def)
  next
    case (Threw err')
    with p have "thrown_by gh err' (final (run e gh))" by simp
    with c bad have "pulls_get gh owner rname n = Inl err'"
      by (auto simp: thrown_by_def)
    with g Threw show ?thesis by simp
  next
    case (Output t)
    with p c bad show ?thesis by (auto simp: details_ok_def)
  qed
qed

text \<open>
  C8. When the detail fetch signals not found (status 404), \<^verbatim>\<open>addPR\<close> returns with the
  merge map unchanged, and the loop over a listing page and the loop over search results go
  on with the next item. Any other failure of the detail fetch leaves \<^verbatim>\<open>addPR\<close> as an
  exception, and a run in which such a fetch was made ends in that exception, so it sets no
  output.
\<close>

theorem detail_fetch_failures:
  "(pulls_get gh owner rname n = Inl err \<and> status err = Some 404 \<longrightarrow>
      addPR gh clk owner rname n s = Inr (s\<lparr>calls := calls s @ [PullsGet owner rname n]\<rparr>) \<and>
      (\<not> at_cap cap s \<and> n \<noteq> 0 \<longrightarrow>
         records_loop cap gh clk owner rname (Summary (Some n) # ps) s =
         records_loop cap gh clk owner rname ps (s\<lparr>calls := calls s @ [PullsGet owner rname n]\<rparr>)) \<and>
      (u \<noteq> [] \<and> url_match u = Some (owner, rname, ds) \<and> Number_digits ds = n \<and> Number_isFinite n \<longrightarrow>
         items_loop gh clk (SearchItem (Some u) # its) s =
         items_loop gh clk its (s\<lparr>calls := calls s @ [PullsGet owner rname n]\<rparr>))) \<and>
   (pulls_get gh owner rname n = Inl err \<and> status err \<noteq> Some 404 \<longrightarrow>
      addPR gh clk owner rname n s = Inl (err, s\<lparr>calls := calls s @ [PullsGet owner rname n]\<rparr>) \<and>
      (PullsGet owner rname n \<in> set (calls (final (run e gh))) \<longrightarrow> outcome (run e gh) = Threw err))"
proof (intro conjI impI)
  assume a: "pulls_get gh owner rname n = Inl err \<and> status err = Some 404"
  then show "addPR gh clk owner rname n s = Inr (s\<lparr>calls := calls s @ [PullsGet owner rname n]\<rparr>)"
    by (simp add: addPR_not_found)
  assume "\<not> at_cap cap s \<and> n \<noteq> 0"
  with a show "records_loop cap gh clk owner rname (Summary (Some n) # ps) s =
         records_loop cap gh clk owner rname ps (s\<lparr>calls := calls s @ [PullsGet owner rname n]\<rparr>)"
    by (simp add: addPR_not_found)
next
  assume a: "pulls_get gh owner rname n = Inl err \<and> status err = Some 404"
    and "u \<noteq> [] \<and> url_match u = Some (owner, rname, ds) \<and> Number_digits ds = n \<and> Number_isFinite n"
  then show "items_loop gh clk (SearchItem (Some u) # its) s =
         items_loop gh clk its (s\<lparr>calls := calls s @ [PullsGet owner rname n]\<rparr>)"
    by (auto simp: addPR_not_found)
next
  assume a: "pulls_get gh owner rname n = Inl err \<and> status err \<noteq> Some 404"
  then show "addPR gh clk owner rname n s = Inl (err, s\<lparr>calls := calls s @ [PullsGet owner rname n]\<rparr>)"
    by (simp add: addPR_other_error)
  assume "PullsGet owner rname n \<in> set (calls (final (run e gh)))"
  with a show "outcome (run e gh) = Threw err"
    by (simp add: run_throws_detail_error)
qed

lemma failing_run_calls:
  "calls (final (run (example_env (ParsedDoc config_one_repo)) failing_github)) =
     [PullsListPage ''acme'' ''core'' 0, PullsGet ''acme'' ''core'' 1, PullsGet ''acme'' ''core'' 2]"
  by code_simp

theorem detail_fetch_failures_witness:
  "addPR failing_github (\<lambda>k. 0) ''acme'' ''core'' 1 initial =
     Inr (initial\<lparr>calls := calls initial @ [PullsGet ''acme'' ''core'' 1]\<rparr>) \<and>
   records_loop 5 failing_github (\<lambda>k. 0) ''acme'' ''core'' [Summary (Some 1)] initial =
     Inr (initial\<lparr>calls := calls initial @ [PullsGet ''acme'' ''core'' 1]\<rparr>) \<and>
   items_loop failing_github (\<lambda>k. 0) [SearchItem (Some ''https://api.x.test/repos/acme/core/issues/1'')] initial =
     Inr (initial\<lparr>calls := calls initial @ [PullsGet ''acme'' ''core'' 1]\<rparr>) \<and>
   addPR failing_github (\<lambda>k. 0) ''acme'' ''core'' 2 initial =
     Inl (JsError (Some 500) ''Server Error'', initial\<lparr>calls := calls initial @ [PullsGet ''acme'' ''core'' 2]\<rparr>) \<and>
   PullsGet ''acme'' ''core'' 2 \<in> set (calls (final (run (example_env (ParsedDoc config_one_repo)) failing_github))) \<and>
   outcome (run (example_env (ParsedDoc config_one_repo)) failing_github) =
     Threw (JsError (Some 500) ''Server Error'')"
proof -
  let ?u = "''https://api.x.test/repos/acme/core/issues/1''"
  let ?s1 = "initial\<lparr>calls := calls initial @ [PullsGet ''acme'' ''core'' 1]\<rparr>"
  have g1: "pulls_get failing_github ''acme'' ''core'' 1 = Inl (JsError (Some 404) ''Not Found'') \<and>
            status (JsError (Some 404) ''Not Found'') = Some 404"
    by (simp add: failing_github_def)
  have g2: "pulls_get failing_github ''acme'' ''core'' 2 = Inl (JsError (Some 500) ''Server Error'') \<and>
            status (JsError (Some 500) ''Server Error'') \<noteq> Some 404"
    by (simp add: failing_github_def)
  have k: "\<not> at_cap 5 initial \<and> (1::int) \<noteq> 0" by (simp add: at_cap_def initial_def)
  have m: "url_match ?u = Some (''acme'', ''core'', ''1'')" by code_simp
  have i: "?u \<noteq> [] \<and> url_match ?u = Some (''acme'', ''core'', ''1'') \<and> Number_digits ''1'' = 1 \<and> Number_isFinite 1"
    using m by (simp add: Number_digits_def digit_value_def Number_isFinite_def)
  have c: "PullsGet ''acme'' ''core'' 2 \<in>
           set (calls (final (run (example_env (ParsedDoc config_one_repo)) failing_github)))"
    by (simp add: failing_run_calls)
  note t1 = detail_fetch_failures[of failing_github "''acme''" "''core''" 1 "JsError (Some 404) ''Not Found''"
      "\<lambda>k. 0" initial 5 "[]" ?u "''1''" "[]"]
  from t1 g1 have a: "addPR failing_github (\<lambda>k. 0) ''acme'' ''core'' 1 initial = Inr ?s1"
    by blast
  from t1 g1 k have "records_loop 5 failing_github (\<lambda>k. 0) ''acme'' ''core'' [Summary (Some 1)] initial =
      records_loop 5 failing_github (\<lambda>k. 0) ''acme'' ''core'' [] ?s1"
    by blast
  then have r: "records_loop 5 failing_github (\<lambda>k. 0) ''acme'' ''core'' [Summary (Some 1)] initial = Inr ?s1"
    by simp
  from t1 g1 i have "items_loop failing_github (\<lambda>k. 0) [SearchItem (Some ?u)] initial =
      items_loop failing_github (\<lambda>k. 0) [] ?s1"
    by blast
  then have l: "items_loop failing_github (\<lambda>k. 0) [SearchItem (Some ?u)] initial = Inr ?s1"
    by simp
  note t2 = detail_fetch_failures[of failing_github "''acme''" "''core''" 2 "JsError (Some 500) ''Server Error''"
      "\<lambda>k. 0" initial _ _ _ _ _ "example_env (ParsedDoc config_one_repo)"]
  from t2 g2 have x: "addPR failing_github (\<lambda>k. 0) ''acme'' ''core'' 2 initial =
     Inl (JsError (Some 500) ''Server Error'', initial\<lparr>calls := calls initial @ [PullsGet ''acme'' ''core'' 2]\<rparr>)"
    by blast
  from t2 g2 c have b: "outcome (run (example_env (ParsedDoc config_one_repo)) failing_github) =
     Threw (JsError (Some 500) ''Server Error'')"
    by blast
  from a r l x c b show ?thesis by blast
qed

section \<open>Merging by identity\<close>

lemma Map_set_keys:
  "map fst (Map_set k v m) = (if k \<in> fst ` set m then map fst m else map fst m @ [k])"
  by (induction m) auto

lemma Map_set_fst_set: "fst ` set (Map_set k v m) = insert k (fst ` set m)"
  by (induction m) auto

lemma distinct_Map_set: "distinct (map fst m) \<Longrightarrow> distinct (map fst (Map_set k v m))"
  by (simp add: Map_set_keys)

lemma map_of_Map_set: "map_of (Map_set k v m) = (map_of m)(k \<mapsto> v)"
  by (induction m) (auto simp: fun_upd_twist)









section \<open>The collection cap\<close>
















section \<open>Parsing the locator of a search item\<close>

lemma literal_Some_iff: "literal l s = Some t \<longleftrightarrow> s = l @ t"
  by (induction l s rule: literal.induct) auto

lemma is_digit_not_slash: "is_digit c \<Longrightarrow> not_slash c"
  by (auto simp: is_digit_def not_slash_def)

lemma slash_is_slash: "\<not> not_slash CHR ''/''"
  by (simp add: not_slash_def)

lemma takeWhile_run: "list_all P r \<Longrightarrow> \<not> P z \<Longrightarrow> takeWhile P (r @ z # t) = r"
  by (induction r) auto

lemma dropWhile_run: "list_all P r \<Longrightarrow> \<not> P z \<Longrightarrow> dropWhile P (r @ z # t) = z # t"
  by (induction r) auto

lemma last_segment_append:
  assumes "list_all not_slash y"
  shows "last_segment (x @ CHR ''/'' # y) = y"
proof -
  from assms have "list_all not_slash (rev y)" by (simp add: list_all_iff)
  from takeWhile_run[OF this slash_is_slash, of "rev x"] show ?thesis
    by (simp add: last_segment_def)
qed

lemma before_last_segment_append:
  assumes "list_all not_slash y"
  shows "before_last_segment (x @ CHR ''/'' # y) = x"
proof -
  from assms have "list_all not_slash (rev y)" by (simp add: list_all_iff)
  from dropWhile_run[OF this slash_is_slash, of "rev x"] show ?thesis
    by (simp add: before_last_segment_def)
qed

lemma takeWhile_segment:
  "list_all not_slash a \<Longrightarrow> takeWhile not_slash (a @ CHR ''/'' # r) = a"
  by (simp add: takeWhile_run slash_is_slash)

lemma dropWhile_segment:
  "list_all not_slash a \<Longrightarrow> dropWhile not_slash (a @ CHR ''/'' # r) = CHR ''/'' # r"
  by (simp add: dropWhile_run slash_is_slash)

lemma match_here_suffix:
  assumes "well_formed a b d"
  shows "match_here (issue_suffix a b d) = Some (a, b, d)"
proof -
  from assms have a: "a \<noteq> []" "list_all not_slash a" and b: "b \<noteq> []" "list_all not_slash b"
    and d: "d \<noteq> []" "list_all is_digit d"
    by (simp_all add: well_formed_def)
  have 1: "literal ''/repos/'' (issue_suffix a b d) = Some (a @ CHR ''/'' # b @ ''/issues/'' @ d)"
    by (simp add: issue_suffix_def)
  have 2: "literal ''/'' (CHR ''/'' # b @ ''/issues/'' @ d) = Some (b @ CHR ''/'' # ''issues/'' @ d)"
    by simp
  have 3: "literal ''/issues/'' (CHR ''/'' # ''issues/'' @ d) = Some d"
    by simp
  have 4: "takeWhile is_digit d = d" "dropWhile is_digit d = []"
    using d by (simp_all add: list_all_iff)
  show ?thesis
    unfolding match_here_def 1 option.case
      takeWhile_segment[OF a(2)] dropWhile_segment[OF a(2)] 2
      takeWhile_segment[OF b(2)] dropWhile_segment[OF b(2)] 3 4
    using a b d by simp
qed

lemma match_here_Some:
  assumes "match_here s = Some (a, b, d)"
  shows "s = issue_suffix a b d \<and> well_formed a b d"
proof -
  from assms obtain s1 where s1: "literal ''/repos/'' s = Some s1"
    by (auto simp: match_here_def split: option.splits)
  with assms have a: "takeWhile not_slash s1 \<noteq> []"
    by (auto simp: match_here_def split: option.splits if_splits)
  with assms s1 obtain s2 where s2: "literal ''/'' (dropWhile not_slash s1) = Some s2"
    by (auto simp: match_here_def split: option.splits if_splits)
  with assms s1 a have b: "takeWhile not_slash s2 \<noteq> []"
    by (auto simp: match_here_def split: option.splits if_splits)
  with assms s1 a s2 obtain s3 where s3: "literal ''/issues/'' (dropWhile not_slash s2) = Some s3"
    by (auto simp: match_here_def split: option.splits if_splits)
  with assms s1 a s2 b have r: "takeWhile is_digit s3 \<noteq> []" "dropWhile is_digit s3 = []"
    "a = takeWhile not_slash s1" "b = takeWhile not_slash s2" "d = s3"
    by (auto simp: match_here_def split: option.splits if_splits)
  from s1 have e1: "s = ''/repos/'' @ s1" by (simp only: literal_Some_iff)
  from s2 have e2: "dropWhile not_slash s1 = ''/'' @ s2" by (simp only: literal_Some_iff)
  from s3 have e3: "dropWhile not_slash s2 = ''/issues/'' @ s3" by (simp only: literal_Some_iff)
  have "s1 = takeWhile not_slash s1 @ dropWhile not_slash s1" by simp
  with e2 r have f1: "s1 = a @ ''/'' @ s2" by simp
  have "s2 = takeWhile not_slash s2 @ dropWhile not_slash s2" by simp
  with e3 r have f2: "s2 = b @ ''/issues/'' @ d" by simp
  have wa: "list_all not_slash a" "list_all not_slash b"
    unfolding r by (auto simp: list_all_iff dest: set_takeWhileD)
  from r have wd: "list_all is_digit d" "d \<noteq> []"
    by (auto simp: list_all_iff dropWhile_eq_Nil_conv)
  from e1 f1 f2 have "s = issue_suffix a b d" by (simp add: issue_suffix_def)
  with wa wd a b r show ?thesis by (simp add: well_formed_def)
qed

text \<open>The three components are functions of the whole string, whatever precedes the suffix.\<close>

lemma suffix_components:
  assumes "well_formed a b d"
  shows "last_segment (pre @ issue_suffix a b d) = d"
    and "last_segment (before_last_segment (before_last_segment (pre @ issue_suffix a b d))) = b"
    and "last_segment (before_last_segment (before_last_segment (before_last_segment (pre @ issue_suffix a b d)))) = a"
proof -
  from assms have a: "list_all not_slash a" and b: "list_all not_slash b" and d: "list_all not_slash d"
    by (auto simp: well_formed_def list_all_iff is_digit_not_slash)
  have i: "list_all not_slash ''issues''" by (simp add: not_slash_def)
  have 0: "pre @ issue_suffix a b d = (pre @ ''/repos/'' @ a @ ''/'' @ b @ ''/issues'') @ CHR ''/'' # d"
    by (simp add: issue_suffix_def)
  have 1: "pre @ ''/repos/'' @ a @ ''/'' @ b @ ''/issues'' = (pre @ ''/repos/'' @ a @ ''/'' @ b) @ CHR ''/'' # ''issues''"
    by simp
  have 2: "pre @ ''/repos/'' @ a @ ''/'' @ b = (pre @ ''/repos/'' @ a) @ CHR ''/'' # b"
    by simp
  have 3: "pre @ ''/repos/'' @ a = (pre @ ''/repos'') @ CHR ''/'' # a"
    by simp
  show "last_segment (pre @ issue_suffix a b d) = d"
    unfolding 0 by (rule last_segment_append[OF d])
  have g1: "before_last_segment (pre @ issue_suffix a b d) = pre @ ''/repos/'' @ a @ ''/'' @ b @ ''/issues''"
    unfolding 0 by (rule before_last_segment_append[OF d])
  have g2: "before_last_segment (pre @ ''/repos/'' @ a @ ''/'' @ b @ ''/issues'') = pre @ ''/repos/'' @ a @ ''/'' @ b"
    unfolding 1 by (rule before_last_segment_append[OF i])
  have g3: "before_last_segment (pre @ ''/repos/'' @ a @ ''/'' @ b) = pre @ ''/repos/'' @ a"
    unfolding 2 by (rule before_last_segment_append[OF b])
  show "last_segment (before_last_segment (before_last_segment (pre @ issue_suffix a b d))) = b"
    unfolding g1 g2 unfolding 2 by (rule last_segment_append[OF b])
  show "last_segment (before_last_segment (before_last_segment (before_last_segment (pre @ issue_suffix a b d)))) = a"
    unfolding g1 g2 g3 unfolding 3 by (rule last_segment_append[OF a])
qed

lemma suffix_unique:
  assumes "well_formed a b d" and "well_formed a' b' d'"
    and "pre @ issue_suffix a b d = pre' @ issue_suffix a' b' d'"
  shows "a = a' \<and> b = b' \<and> d = d'"
  using suffix_components[OF assms(1), of pre] suffix_components[OF assms(2), of pre'] assms(3)
  by simp

lemma url_match_Some:
  "url_match u = Some m \<Longrightarrow> \<exists>pre t. u = pre @ t \<and> match_here t = Some m"
proof (induction u)
  case Nil
  then show ?case by simp
next
  case (Cons c cs)
  show ?case
  proof (cases "match_here (c # cs)")
    case None
    with Cons.prems have "url_match cs = Some m" by simp
    from Cons.IH[OF this] obtain pre t where "cs = pre @ t" "match_here t = Some m" by blast
    then have "c # cs = (c # pre) @ t \<and> match_here t = Some m" by simp
    then show ?thesis by blast
  next
    case (Some m')
    with Cons.prems have "c # cs = [] @ (c # cs) \<and> match_here (c # cs) = Some m" by simp
    then show ?thesis by blast
  qed
qed

lemma url_match_suffix:
  assumes "well_formed a b d"
  shows "url_match (pre @ issue_suffix a b d) = Some (a, b, d)"
proof (induction pre)
  case Nil
  have "issue_suffix a b d \<noteq> []" by (simp add: issue_suffix_def)
  then obtain c cs where c: "issue_suffix a b d = c # cs" by (cases "issue_suffix a b d") auto
  with match_here_suffix[OF assms] show ?case by simp
next
  case (Cons c pre)
  show ?case
  proof (cases "match_here (c # pre @ issue_suffix a b d)")
    case None
    with Cons show ?thesis by simp
  next
    case (Some m)
    obtain a' b' d' where m: "m = (a', b', d')" by (cases m) auto
    from match_here_Some[OF Some[unfolded m]]
    have e: "c # pre @ issue_suffix a b d = issue_suffix a' b' d'" and w: "well_formed a' b' d'"
      by simp_all
    have "a = a' \<and> b = b' \<and> d = d'"
      by (rule suffix_unique[OF assms w, of "c # pre" "[]"]) (simp add: e)
    with Some m show ?thesis by simp
  qed
qed

lemma url_match_None_iff:
  "url_match u = None \<longleftrightarrow> \<not> (\<exists>pre a b d. u = pre @ issue_suffix a b d \<and> well_formed a b d)"
proof
  assume n: "url_match u = None"
  show "\<not> (\<exists>pre a b d. u = pre @ issue_suffix a b d \<and> well_formed a b d)"
  proof
    assume "\<exists>pre a b d. u = pre @ issue_suffix a b d \<and> well_formed a b d"
    then obtain pre a b d where "u = pre @ issue_suffix a b d" "well_formed a b d" by blast
    with url_match_suffix[of a b d pre] n show False by simp
  qed
next
  assume n: "\<not> (\<exists>pre a b d. u = pre @ issue_suffix a b d \<and> well_formed a b d)"
  show "url_match u = None"
  proof (rule ccontr)
    assume "url_match u \<noteq> None"
    then obtain m where m: "url_match u = Some m" by auto
    obtain a b d where "m = (a, b, d)" by (cases m) auto
    with url_match_Some[OF m] obtain pre t where "u = pre @ t" "match_here t = Some (a, b, d)" by blast
    with match_here_Some[of t a b d] n show False by blast
  qed
qed

lemma Number_digits_snoc: "Number_digits (xs @ [c]) = 10 * Number_digits xs + digit_value c"
  by (simp add: Number_digits_def)

lemma digit_value_digit_char:
  assumes "k < 10"
  shows "digit_value (digit_char k) = int k"
proof -
  from assms have "k = 0 \<or> k = 1 \<or> k = 2 \<or> k = 3 \<or> k = 4 \<or> k = 5 \<or> k = 6 \<or> k = 7 \<or> k = 8 \<or> k = 9"
    by arith
  then show ?thesis
    by (elim disjE) (simp_all add: digit_char_def digit_value_def)
qed

lemma Number_digits_show_nat: "Number_digits (show_nat k) = int k"
proof (induction k rule: show_nat.induct)
  case (1 n)
  show ?case
  proof (cases "n < 10")
    case True
    then show ?thesis
      by (subst show_nat.simps) (simp add: Number_digits_def digit_value_digit_char)
  next
    case False
    then have "Number_digits (show_nat n) = 10 * Number_digits (show_nat (n div 10)) + digit_value (digit_char (n mod 10))"
      by (subst show_nat.simps) (simp add: Number_digits_snoc)
    also have "\<dots> = 10 * int (n div 10) + int (n mod 10)"
      using 1[OF False] by (simp add: digit_value_digit_char)
    also have "\<dots> = int n" by (simp add: of_nat_div of_nat_mod)
    finally show ?thesis .
  qed
qed

text \<open>
  C9. A locator that ends with \<^verbatim>\<open>/repos/{owner}/{repo}/issues/{number}\<close>, owner and repo
  non-empty without a slash and number a non-empty string of digits (of a value up to
  \<open>2 ^ 53\<close>, where \<^verbatim>\<open>Number\<close> is exact), is parsed to exactly these components, and the
  detail of that owner, repo and number is fetched; the number of a decimal numeral is its
  value. An item whose locator has no such suffix is skipped: the loop goes on with the
  next item from the same state.
\<close>

theorem search_item_parsing:
  "(well_formed a b d \<and> Number_digits d \<le> 2 ^ 53 \<longrightarrow>
      url_match (pre @ ''/repos/'' @ a @ ''/'' @ b @ ''/issues/'' @ d) = Some (a, b, d) \<and>
      items_loop gh clk (SearchItem (Some (pre @ ''/repos/'' @ a @ ''/'' @ b @ ''/issues/'' @ d)) # its) s =
        (case addPR gh clk a b (Number_digits d) s of
           Inl es \<Rightarrow> Inl es
         | Inr s' \<Rightarrow> items_loop gh clk its s')) \<and>
   Number_digits (show_nat k) = int k \<and>
   (\<not> (\<exists>pre a b d. u = pre @ ''/repos/'' @ a @ ''/'' @ b @ ''/issues/'' @ d \<and> well_formed a b d) \<longrightarrow>
      url_match u = None \<and>
      items_loop gh clk (SearchItem (Some u) # its) s = items_loop gh clk its s)"
proof (intro conjI impI)
  assume w: "well_formed a b d \<and> Number_digits d \<le> 2 ^ 53"
  then have m: "url_match (pre @ issue_suffix a b d) = Some (a, b, d)"
    by (simp add: url_match_suffix)
  then show "url_match (pre @ ''/repos/'' @ a @ ''/'' @ b @ ''/issues/'' @ d) = Some (a, b, d)"
    by (simp add: issue_suffix_def)
  define v where "v = pre @ issue_suffix a b d"
  have "(2::int) ^ 53 < 2 ^ 1024 - 2 ^ 970" by simp
  with w have "Number_isFinite (Number_digits d)" by (simp add: Number_isFinite_def)
  moreover have "v \<noteq> []" by (simp add: v_def issue_suffix_def)
  moreover from m have "url_match v = Some (a, b, d)" by (simp add: v_def)
  ultimately have "items_loop gh clk (SearchItem (Some v) # its) s =
        (case addPR gh clk a b (Number_digits d) s of
           Inl es \<Rightarrow> Inl es
         | Inr s' \<Rightarrow> items_loop gh clk its s')"
    by simp
  then show "items_loop gh clk (SearchItem (Some (pre @ ''/repos/'' @ a @ ''/'' @ b @ ''/issues/'' @ d)) # its) s =
        (case addPR gh clk a b (Number_digits d) s of
           Inl es \<Rightarrow> Inl es
         | Inr s' \<Rightarrow> items_loop gh clk its s')"
    by (simp add: v_def issue_suffix_def)
next
  show "Number_digits (show_nat k) = int k" by (rule Number_digits_show_nat)
next
  assume "\<not> (\<exists>pre a b d. u = pre @ ''/repos/'' @ a @ ''/'' @ b @ ''/issues/'' @ d \<and> well_formed a b d)"
  then have "\<not> (\<exists>pre a b d. u = pre @ issue_suffix a b d \<and> well_formed a b d)"
    by (simp add: issue_suffix_def)
  then show n: "url_match u = None" by (simp add: url_match_None_iff)
  then show "items_loop gh clk (SearchItem (Some u) # its) s = items_loop gh clk its s"
    by simp
qed

lemma example_locator_no_match: "url_match ''https://api.x.test/repos/foo/bar'' = None"
  by code_simp

theorem search_item_parsing_witness:
  "url_match ''https://api.x.test/repos/foo/bar/issues/42'' = Some (''foo'', ''bar'', ''42'') \<and>
   Number_digits ''42'' = 42 \<and>
   url_match ''https://api.x.test/repos/foo/bar'' = None \<and>
   items_loop example_github (\<lambda>k. 0) [SearchItem (Some ''https://api.x.test/repos/foo/bar'')] initial =
     Inr initial"
proof -
  have w: "well_formed ''foo'' ''bar'' ''42'' \<and> Number_digits ''42'' \<le> 2 ^ 53"
    by (simp add: well_formed_def not_slash_def is_digit_def Number_digits_def digit_value_def)
  have n: "\<not> (\<exists>pre a b d. ''https://api.x.test/repos/foo/bar'' = pre @ ''/repos/'' @ a @ ''/'' @ b @ ''/issues/'' @ d
             \<and> well_formed a b d)"
    using example_locator_no_match url_match_None_iff[of "''https://api.x.test/repos/foo/bar''"]
    by (simp add: issue_suffix_def)
  have s: "show_nat 42 = ''42''" by (simp add: show_nat.simps digit_char_def)
  from search_item_parsing[of "''foo''" "''bar''" "''42''" "''https://api.x.test''" _ _ _ _ 42] w
  have 1: "url_match (''https://api.x.test'' @ ''/repos/'' @ ''foo'' @ ''/'' @ ''bar'' @ ''/issues/'' @ ''42'') =
        Some (''foo'', ''bar'', ''42'')"
    and 2: "Number_digits (show_nat 42) = int 42"
    by blast+
  from search_item_parsing[of _ _ _ _ example_github "\<lambda>k. 0" "[]" initial _
      "''https://api.x.test/repos/foo/bar''"] n
  have 3: "url_match ''https://api.x.test/repos/foo/bar'' = None \<and>
      items_loop example_github (\<lambda>k. 0) [SearchItem (Some ''https://api.x.test/repos/foo/bar'')] initial =
      items_loop example_github (\<lambda>k. 0) [] initial"
    by blast
  from 1 2 3 s show ?thesis by simp
qed

section \<open>The rendered section\<close>

lemma foldl_append_each: "foldl (\<lambda>ls x. ls @ h x) ls xs = ls @ concat (map h xs)"
  by (induction xs arbitrary: ls) simp_all

lemma filter_repo_absent: "r \<notin> repo ` set xs \<Longrightarrow> filter (\<lambda>p. repo p = r) xs = []"
  by (auto simp: filter_empty_conv)

lemma byRepo_lookup:
  "map_of (foldl byRepo_push [] xs) r =
     (if r \<in> repo ` set xs then Some (filter (\<lambda>p. repo p = r) xs) else None)"
proof (induction xs rule: rev_induct)
  case Nil
  then show ?case by simp
next
  case (snoc x xs)
  let ?m = "foldl byRepo_push [] xs"
  have step: "map_of (foldl byRepo_push [] (xs @ [x])) =
        (map_of ?m)(repo x \<mapsto> (case map_of ?m (repo x) of None \<Rightarrow> [] | Some g \<Rightarrow> g) @ [x])"
    by (simp add: byRepo_push_def map_of_Map_set)
  show ?case
  proof (cases "r = repo x")
    case True
    show ?thesis
    proof (cases "repo x \<in> repo ` set xs")
      case in_xs: True
      with snoc True show ?thesis unfolding step by simp
    next
      case False
      with snoc True show ?thesis unfolding step by (simp add: filter_repo_absent)
    qed
  next
    case False
    with snoc show ?thesis unfolding step by auto
  qed
qed

lemma byRepo_keys:
  "distinct (map fst (foldl byRepo_push [] xs)) \<and> fst ` set (foldl byRepo_push [] xs) = repo ` set xs"
proof (induction xs rule: rev_induct)
  case Nil
  then show ?case by simp
next
  case (snoc x xs)
  then show ?case
    by (simp add: byRepo_push_def distinct_Map_set Map_set_fst_set)
qed

lemma render_group_lines:
  "render_group cap byRepo lines r =
     lines @ group_lines (r, length (case map_of byRepo r of None \<Rightarrow> [] | Some g \<Rightarrow> g),
                          slice0 (case map_of byRepo r of None \<Rightarrow> [] | Some g \<Rightarrow> g) cap)"
  by (simp add: render_group_def group_lines_def record_lines_def Let_def foldl_append_each)

lemma renderSection_groups:
  assumes "prs \<noteq> []"
  shows "renderSection cap ttl prs =
         section_head ttl @
         concat (map (\<lambda>r. group_lines (r, length (group_of prs r), slice0 (group_of prs r) cap))
                   (sort (map fst (foldl byRepo_push [] (by_age prs)))))"
proof -
  let ?m = "foldl byRepo_push [] (by_age prs)"
  let ?keys = "sort (map fst ?m)"
  have l: "(case map_of ?m r of None \<Rightarrow> [] | Some g \<Rightarrow> g) = group_of prs r" if "r \<in> set ?keys" for r
  proof -
    from that have "r \<in> repo ` set (by_age prs)" using byRepo_keys[of "by_age prs"] by simp
    then show ?thesis by (simp add: byRepo_lookup group_of_def)
  qed
  have "renderSection cap ttl prs =
        foldl (\<lambda>ls r. ls @ group_lines (r, length (case map_of ?m r of None \<Rightarrow> [] | Some g \<Rightarrow> g),
                          slice0 (case map_of ?m r of None \<Rightarrow> [] | Some g \<Rightarrow> g) cap))
          (section_head ttl) ?keys"
    using assms by (simp add: renderSection_def Let_def by_age_def section_head_def render_group_lines[abs_def])
  also have "\<dots> = section_head ttl @
        concat (map (\<lambda>r. group_lines (r, length (case map_of ?m r of None \<Rightarrow> [] | Some g \<Rightarrow> g),
                          slice0 (case map_of ?m r of None \<Rightarrow> [] | Some g \<Rightarrow> g) cap)) ?keys)"
    by (rule foldl_append_each)
  also have "map (\<lambda>r. group_lines (r, length (case map_of ?m r of None \<Rightarrow> [] | Some g \<Rightarrow> g),
                          slice0 (case map_of ?m r of None \<Rightarrow> [] | Some g \<Rightarrow> g) cap)) ?keys =
             map (\<lambda>r. group_lines (r, length (group_of prs r), slice0 (group_of prs r) cap)) ?keys"
    by (rule map_cong[OF refl]) (simp add: l)
  finally show ?thesis .
qed

lemma title_prs_append: "title_prs (xs @ ys) = title_prs xs @ title_prs ys"
  by (induction xs rule: title_prs.induct) simp_all

lemma title_prs_record_lines: "title_prs (record_lines ps) = ps"
  by (induction ps) (simp_all add: record_lines_def)

lemma record_lines_no_header: "list_all (\<lambda>l. \<not> is_RepoHeader l) (record_lines ps)"
  by (induction ps) (simp_all add: record_lines_def)

lemma section_head_no_header: "list_all (\<lambda>l. \<not> is_RepoHeader l) (section_head ttl)"
  by (simp add: section_head_def)

lemma rendered_groups_skip:
  "list_all (\<lambda>l. \<not> is_RepoHeader l) ls \<Longrightarrow> rendered_groups (ls @ rest) = rendered_groups rest"
proof (induction ls)
  case Nil
  then show ?case by simp
next
  case (Cons l ls)
  then show ?case by (cases l) simp_all
qed

lemma takeWhile_skip:
  "list_all (\<lambda>l. \<not> is_RepoHeader l) ls \<Longrightarrow>
   takeWhile (\<lambda>l. \<not> is_RepoHeader l) (ls @ rest) = ls @ takeWhile (\<lambda>l. \<not> is_RepoHeader l) rest"
  by (induction ls) simp_all

lemma title_prs_before_groups:
  "title_prs (takeWhile (\<lambda>l. \<not> is_RepoHeader l) (concat (map group_lines gs))) = []"
proof (cases gs)
  case Nil
  then show ?thesis by simp
next
  case (Cons g gs')
  obtain r n ps where "g = (r, n, ps)" by (cases g) auto
  with Cons show ?thesis by (simp add: group_lines_def)
qed

lemma rendered_groups_group_lines: "rendered_groups (concat (map group_lines gs)) = gs"
proof (induction gs)
  case Nil
  then show ?case by simp
next
  case (Cons g gs)
  obtain r n ps where g: "g = (r, n, ps)" by (cases g) auto
  let ?rest = "concat (map group_lines gs)"
  have "rendered_groups (concat (map group_lines (g # gs))) =
        rendered_groups (RepoHeader r n # (Text [] # record_lines ps) @ ?rest)"
    by (simp add: g group_lines_def)
  also have "\<dots> = (r, n, title_prs (takeWhile (\<lambda>l. \<not> is_RepoHeader l) ((Text [] # record_lines ps) @ ?rest)))
        # rendered_groups ((Text [] # record_lines ps) @ ?rest)"
    by simp
  also have "takeWhile (\<lambda>l. \<not> is_RepoHeader l) ((Text [] # record_lines ps) @ ?rest) =
        (Text [] # record_lines ps) @ takeWhile (\<lambda>l. \<not> is_RepoHeader l) ?rest"
    by (rule takeWhile_skip) (simp add: record_lines_no_header)
  also have "title_prs ((Text [] # record_lines ps) @ takeWhile (\<lambda>l. \<not> is_RepoHeader l) ?rest) = ps"
    by (simp only: title_prs_append title_prs_before_groups) (simp add: title_prs_record_lines)
  also have "rendered_groups ((Text [] # record_lines ps) @ ?rest) = rendered_groups ?rest"
    by (rule rendered_groups_skip) (simp add: record_lines_no_header)
  finally show ?case by (simp add: g Cons.IH)
qed

text \<open>The groups of a rendered section, and the section as the lines of its groups.\<close>

lemma rendered_groups_renderSection:
  assumes "prs \<noteq> []"
  shows "rendered_groups (renderSection cap ttl prs) =
           map (\<lambda>r. (r, length (group_of prs r), slice0 (group_of prs r) cap))
             (sort (map fst (foldl byRepo_push [] (by_age prs))))"
    and "renderSection cap ttl prs =
           section_head ttl @ concat (map group_lines (rendered_groups (renderSection cap ttl prs)))"
proof -
  let ?gs = "map (\<lambda>r. (r, length (group_of prs r), slice0 (group_of prs r) cap))
             (sort (map fst (foldl byRepo_push [] (by_age prs))))"
  have r: "renderSection cap ttl prs = section_head ttl @ concat (map group_lines ?gs)"
    by (simp add: renderSection_groups[OF assms] comp_def)
  show g: "rendered_groups (renderSection cap ttl prs) = ?gs"
    unfolding r by (simp only: rendered_groups_skip[OF section_head_no_header] rendered_groups_group_lines)
  show "renderSection cap ttl prs =
           section_head ttl @ concat (map group_lines (rendered_groups (renderSection cap ttl prs)))"
    unfolding g by (rule r)
qed

lemma rendered_groups_empty: "rendered_groups (renderSection cap ttl []) = []"
  by (simp add: renderSection_def)

lemma keys_strictly_sorted:
  "sorted_wrt (<) (sort (map fst (foldl byRepo_push [] xs)))"
  by (simp add: strict_sorted_iff byRepo_keys)

lemma by_age_sorted: "sorted_wrt (\<lambda>p q. days q \<le> days p) (by_age prs)"
proof -
  have "sorted (map (\<lambda>p. - days p) (by_age prs))" by (simp add: by_age_def)
  then show ?thesis by (simp add: sorted_map)
qed

lemma group_of_sorted: "sorted_wrt (\<lambda>p q. days q \<le> days p) (group_of prs r)"
  unfolding group_of_def by (rule sorted_wrt_filter[OF by_age_sorted])

lemma slice0_take: "\<exists>k. slice0 xs n = take k xs"
  by (auto simp: slice0_def)

lemma slice0_sorted: "sorted_wrt R xs \<Longrightarrow> sorted_wrt R (slice0 xs n)"
  using slice0_take[of xs n] by (auto simp: sorted_wrt_take)

lemma length_group_of: "length (group_of prs r) = length (filter (\<lambda>p. repo p = r) prs)"
  by (simp add: group_of_def by_age_def filter_sort)

lemma group_keys: "set (map fst (rendered_groups (renderSection cap ttl prs))) = repo ` set prs"
proof (cases "prs = []")
  case True
  then show ?thesis by (simp add: rendered_groups_empty)
next
  case False
  have "set (map fst (rendered_groups (renderSection cap ttl prs))) =
        fst ` set (foldl byRepo_push [] (by_age prs))"
    unfolding rendered_groups_renderSection(1)[OF False, of cap ttl] by (simp add: comp_def)
  also have "\<dots> = repo ` set prs" by (simp add: byRepo_keys by_age_def)
  finally show ?thesis .
qed

lemma group_facts:
  assumes "(r, n, ps) \<in> set (rendered_groups (renderSection cap ttl prs))"
  shows "n = length (filter (\<lambda>p. repo p = r) prs)"
    and "ps = slice0 (filter (\<lambda>p. repo p = r) (sort_key (\<lambda>p. - days p) prs)) cap"
    and "sorted_wrt (\<lambda>p q. days q \<le> days p) ps"
    and "\<forall>p\<in>set ps. repo p = r \<and> p \<in> set prs"
proof -
  from assms have ne: "prs \<noteq> []" by (auto simp: rendered_groups_empty)
  from assms have n: "n = length (group_of prs r)" and ps: "ps = slice0 (group_of prs r) cap"
    unfolding rendered_groups_renderSection(1)[OF ne, of cap ttl] by auto
  from n show "n = length (filter (\<lambda>p. repo p = r) prs)" by (simp add: length_group_of)
  from ps show "ps = slice0 (filter (\<lambda>p. repo p = r) (sort_key (\<lambda>p. - days p) prs)) cap"
    by (simp add: group_of_def by_age_def)
  from ps show "sorted_wrt (\<lambda>p q. days q \<le> days p) ps"
    by (simp add: slice0_sorted group_of_sorted)
  obtain k where "slice0 (group_of prs r) cap = take k (group_of prs r)"
    using slice0_take by blast
  with ps have "set ps \<subseteq> set (group_of prs r)" by (simp add: set_take_subset)
  then show "\<forall>p\<in>set ps. repo p = r \<and> p \<in> set prs"
    by (auto simp: group_of_def by_age_def)
qed

lemma section_lines:
  assumes "prs \<noteq> []"
  shows "renderSection cap ttl prs =
           [Text [], Text rule, Text ttl, Text rule, Text [], Text table_header, Text []] @
           concat (map (\<lambda>(r, n, ps). [Text [], RepoHeader r n, Text []] @
                                      concat (map (\<lambda>p. [PrTitle p, PrMeta p, Text []]) ps))
                     (rendered_groups (renderSection cap ttl prs)))"
proof -
  have gl: "group_lines = (\<lambda>(r, n, ps). [Text [], RepoHeader r n, Text []] @
                                concat (map (\<lambda>p. [PrTitle p, PrMeta p, Text []]) ps))"
    by (auto simp: group_lines_def record_lines_def fun_eq_iff)
  show ?thesis
    using rendered_groups_renderSection(2)[OF assms, of cap ttl]
    unfolding gl section_head_def .
qed

text \<open>
  C5. In a rendered section the repository groups appear in strictly ascending order of
  their identifiers, one group for each repository of the list, and within each group the
  emitted records, all of that repository, appear in non-increasing order of age; the
  order of the groups does not depend on the ages.
\<close>

theorem render_order:
  "sorted_wrt (<) (map fst (rendered_groups (renderSection cap ttl prs))) \<and>
   set (map fst (rendered_groups (renderSection cap ttl prs))) = repo ` set prs \<and>
   (\<forall>(r, n, ps)\<in>set (rendered_groups (renderSection cap ttl prs)).
      sorted_wrt (\<lambda>p q. days q \<le> days p) ps \<and> (\<forall>p\<in>set ps. repo p = r \<and> p \<in> set prs))"
proof (intro conjI)
  show "sorted_wrt (<) (map fst (rendered_groups (renderSection cap ttl prs)))"
  proof (cases "prs = []")
    case True
    then show ?thesis by (simp add: rendered_groups_empty)
  next
    case False
    show ?thesis
      unfolding rendered_groups_renderSection(1)[OF False, of cap ttl]
      by (simp add: comp_def keys_strictly_sorted)
  qed
  show "set (map fst (rendered_groups (renderSection cap ttl prs))) = repo ` set prs"
    by (rule group_keys)
  show "\<forall>(r, n, ps)\<in>set (rendered_groups (renderSection cap ttl prs)).
      sorted_wrt (\<lambda>p q. days q \<le> days p) ps \<and> (\<forall>p\<in>set ps. repo p = r \<and> p \<in> set prs)"
    using group_facts(3,4) by blast
qed

theorem render_order_witness:
  "rendered_groups (renderSection 25 title_owned example_prs) =
     [(''acme/core'', 3, [example_pr ''acme/core'' 7 9, example_pr ''acme/core'' 5 3, example_pr ''acme/core'' 8 3]),
      (''acme/web'', 1, [example_pr ''acme/web'' 1 4])] \<and>
   sorted_wrt (<) [''acme/core'', ''acme/web''] \<and>
   sorted_wrt (\<lambda>p q. days q \<le> days p)
     [example_pr ''acme/core'' 7 9, example_pr ''acme/core'' 5 3, example_pr ''acme/core'' 8 3]"
proof -
  have g: "rendered_groups (renderSection 25 title_owned example_prs) =
     [(''acme/core'', 3, [example_pr ''acme/core'' 7 9, example_pr ''acme/core'' 5 3, example_pr ''acme/core'' 8 3]),
      (''acme/web'', 1, [example_pr ''acme/web'' 1 4])]"
    by code_simp
  from render_order[of 25 title_owned example_prs] show ?thesis
    unfolding g by simp
qed

text \<open>
  C6. For a cap that is not negative, every rendered group emits at most
  \<^verbatim>\<open>max_prs_per_repo\<close> records, the first ones of the repository's records in descending
  order of age as the stable sort left them, while its sub-header shows the number of all
  records of the repository. The section consists of its head and, for each group, of the
  sub-header and the lines of the emitted records only: nothing reports a truncation.
\<close>

theorem render_cap:
  assumes "0 \<le> cap"
  shows "(\<forall>(r, n, ps)\<in>set (rendered_groups (renderSection cap ttl prs)).
            length ps \<le> nat cap \<and>
            ps = take (nat cap) (filter (\<lambda>p. repo p = r) (sort_key (\<lambda>p. - days p) prs)) \<and>
            n = length (filter (\<lambda>p. repo p = r) prs)) \<and>
         (prs \<noteq> [] \<longrightarrow>
            renderSection cap ttl prs =
              [Text [], Text rule, Text ttl, Text rule, Text [], Text table_header, Text []] @
              concat (map (\<lambda>(r, n, ps). [Text [], RepoHeader r n, Text []] @
                                         concat (map (\<lambda>p. [PrTitle p, PrMeta p, Text []]) ps))
                        (rendered_groups (renderSection cap ttl prs))))"
proof (intro conjI impI)
  have "length ps \<le> nat cap \<and>
        ps = take (nat cap) (filter (\<lambda>p. repo p = r) (sort_key (\<lambda>p. - days p) prs)) \<and>
        n = length (filter (\<lambda>p. repo p = r) prs)"
    if "(r, n, ps) \<in> set (rendered_groups (renderSection cap ttl prs))" for r n ps
    using group_facts(1,2)[OF that] assms by (simp add: slice0_def)
  then show "\<forall>(r, n, ps)\<in>set (rendered_groups (renderSection cap ttl prs)).
            length ps \<le> nat cap \<and>
            ps = take (nat cap) (filter (\<lambda>p. repo p = r) (sort_key (\<lambda>p. - days p) prs)) \<and>
            n = length (filter (\<lambda>p. repo p = r) prs)"
    by blast
next
  assume "prs \<noteq> []"
  then show "renderSection cap ttl prs =
              [Text [], Text rule, Text ttl, Text rule, Text [], Text table_header, Text []] @
              concat (map (\<lambda>(r, n, ps). [Text [], RepoHeader r n, Text []] @
                                         concat (map (\<lambda>p. [PrTitle p, PrMeta p, Text []]) ps))
                        (rendered_groups (renderSection cap ttl prs)))"
    by (rule section_lines)
qed

theorem render_cap_witness:
  "(0::int) \<le> 2 \<and>
   rendered_groups (renderSection 2 title_owned example_prs) =
     [(''acme/core'', 3, [example_pr ''acme/core'' 7 9, example_pr ''acme/core'' 5 3]),
      (''acme/web'', 1, [example_pr ''acme/web'' 1 4])] \<and>
   length [example_pr ''acme/core'' 7 9, example_pr ''acme/core'' 5 3] \<le> nat 2 \<and>
   3 = length (filter (\<lambda>p. repo p = ''acme/core'') example_prs) \<and>
   example_prs \<noteq> [] \<and>
   renderSection 2 title_owned example_prs =
     [Text [], Text rule, Text title_owned, Text rule, Text [], Text table_header, Text [],
      Text [], RepoHeader ''acme/core'' 3, Text [],
      PrTitle (example_pr ''acme/core'' 7 9), PrMeta (example_pr ''acme/core'' 7 9), Text [],
      PrTitle (example_pr ''acme/core'' 5 3), PrMeta (example_pr ''acme/core'' 5 3), Text [],
      Text [], RepoHeader ''acme/web'' 1, Text [],
      PrTitle (example_pr ''acme/web'' 1 4), PrMeta (example_pr ''acme/web'' 1 4), Text []]"
proof -
  have c: "(0::int) \<le> 2" by simp
  have n: "example_prs \<noteq> []" by (simp add: example_prs_def)
  have g: "rendered_groups (renderSection 2 title_owned example_prs) =
     [(''acme/core'', 3, [example_pr ''acme/core'' 7 9, example_pr ''acme/core'' 5 3]),
      (''acme/web'', 1, [example_pr ''acme/web'' 1 4])]"
    by code_simp
  from render_cap[OF c, of title_owned example_prs] n show ?thesis
    unfolding g by simp
qed

end
